theory Spec2Isabelle
  imports Main "HOL-Library.Multiset"
begin

section \<open>The local persistence layer of the diary (\<open>src/services/db.ts\<close>)\<close>

text \<open>
  The service keeps two object stores of one browser database: \<open>entries\<close>, keyed by the
  field \<open>id\<close> of the stored object, and \<open>settings\<close>, keyed by the field \<open>key\<close>. Every
  operation of \<open>diaryService\<close> opens the database, starts one transaction, issues its
  requests and turns the events of the engine into a promise.

  The embedding passes the database explicitly: an operation takes the behaviour of the
  engine during the call (\<open>engine\<close>) and the database before it, and returns the state of
  its promise together with the database after it. The engine is not part of the
  repository; what it does (failing to open, failing a request, failing to commit) is an
  input of every operation.
\<close>

subsection \<open>Values\<close>

text \<open>
  The values that the stores hold and that the snapshot text encodes: \<open>null\<close>, booleans,
  numbers, strings, arrays and objects. Numbers are the integers (the timestamps of the
  data model); a property that an object does not have reads as \<open>undefined\<close>, which the
  model writes \<open>None\<close>.
\<close>

datatype jsval =
    JNull
  | JBool bool
  | JNum int
  | JStr string
  | JArr "jsval list"
  | JObj "(string \<times> jsval) list"

text \<open>
  \<open>v.name\<close> for the names that the service and its stores read (\<open>id\<close>, \<open>key\<close>, \<open>value\<close>,
  \<open>date\<close>): the property of an object, \<open>undefined\<close> on every other value.
\<close>

fun get_prop :: "jsval \<Rightarrow> string \<Rightarrow> jsval option" where
  "get_prop (JObj fs) name = map_of fs name"
| "get_prop _ name = None"

text \<open>\<open>r?.value\<close> on a request result that may be \<open>undefined\<close>.\<close>

fun opt_chain :: "jsval option \<Rightarrow> string \<Rightarrow> jsval option" where
  "opt_chain None name = None"
| "opt_chain (Some JNull) name = None"
| "opt_chain (Some v) name = get_prop v name"

text \<open>The truthiness that \<open>||\<close> tests.\<close>

fun truthy :: "jsval \<Rightarrow> bool" where
  "truthy JNull = False"
| "truthy (JBool b) = b"
| "truthy (JNum n) = (n \<noteq> 0)"
| "truthy (JStr s) = (s \<noteq> [])"
| "truthy (JArr _) = True"
| "truthy (JObj _) = True"

fun js_or :: "jsval option \<Rightarrow> jsval \<Rightarrow> jsval" where
  "js_or None d = d"
| "js_or (Some v) d = (if truthy v then v else d)"

subsection \<open>The records of \<open>src/types.ts\<close>\<close>

datatype ViewMode = List_view | Grid_view | Calendar_view

datatype Theme = Light | Dark

record Entry =
  entry_id :: string
  title :: string
  content :: string
  date :: int
  updatedAt :: int
  mood :: string
  tags :: "string list"
  category :: string
  isFavorite :: bool
  isPrivate :: bool
  images :: "string list"
  audio :: "string option"
  drawing :: "string option"
  location :: "string option"

record AppSettings =
  theme :: Theme
  securityEnabled :: bool
  pin :: "string option"
  biometricsEnabled :: bool
  dailyReminder :: bool
  reminderTime :: string
  viewMode :: ViewMode

text \<open>The objects that these records are at run time.\<close>

fun optional :: "string \<Rightarrow> string option \<Rightarrow> (string \<times> jsval) list" where
  "optional name None = []"
| "optional name (Some s) = [(name, JStr s)]"

definition entry_to_js :: "Entry \<Rightarrow> jsval" where
  "entry_to_js e = JObj
     ([(''id'', JStr (entry_id e)),
       (''title'', JStr (title e)),
       (''content'', JStr (content e)),
       (''date'', JNum (date e)),
       (''updatedAt'', JNum (updatedAt e)),
       (''mood'', JStr (mood e)),
       (''tags'', JArr (map JStr (tags e))),
       (''category'', JStr (category e)),
       (''isFavorite'', JBool (isFavorite e)),
       (''isPrivate'', JBool (isPrivate e)),
       (''images'', JArr (map JStr (images e)))]
      @ optional ''audio'' (audio e)
      @ optional ''drawing'' (drawing e)
      @ optional ''location'' (location e))"

fun theme_to_js :: "Theme \<Rightarrow> jsval" where
  "theme_to_js Light = JStr ''light''"
| "theme_to_js Dark = JStr ''dark''"

fun viewMode_to_js :: "ViewMode \<Rightarrow> jsval" where
  "viewMode_to_js List_view = JStr ''list''"
| "viewMode_to_js Grid_view = JStr ''grid''"
| "viewMode_to_js Calendar_view = JStr ''calendar''"

definition settings_to_js :: "AppSettings \<Rightarrow> jsval" where
  "settings_to_js s = JObj
     [(''theme'', theme_to_js (theme s)),
      (''securityEnabled'', JBool (securityEnabled s)),
      (''pin'', (case pin s of None \<Rightarrow> JNull | Some p \<Rightarrow> JStr p)),
      (''biometricsEnabled'', JBool (biometricsEnabled s)),
      (''dailyReminder'', JBool (dailyReminder s)),
      (''reminderTime'', JStr (reminderTime s)),
      (''viewMode'', viewMode_to_js (viewMode s))]"

subsection \<open>Object stores\<close>

text \<open>
  A key of an object store is a number, a string or an array of keys. The engine orders
  keys: numbers before strings before arrays, numbers by value, strings by their code
  units, arrays element by element.
\<close>

datatype key = KNum int | KStr string | KArr "key list"

fun to_key :: "jsval \<Rightarrow> key option" where
  "to_key (JNum n) = Some (KNum n)"
| "to_key (JStr s) = Some (KStr s)"
| "to_key (JArr xs) = map_option KArr (those (map to_key xs))"
| "to_key _ = None"

fun str_lt :: "string \<Rightarrow> string \<Rightarrow> bool" where
  "str_lt [] [] = False"
| "str_lt [] (y # ys) = True"
| "str_lt (x # xs) [] = False"
| "str_lt (x # xs) (y # ys) =
     ((of_char x :: nat) < of_char y \<or> (x = y \<and> str_lt xs ys))"

fun key_lt :: "key \<Rightarrow> key \<Rightarrow> bool"
  and keys_lt :: "key list \<Rightarrow> key list \<Rightarrow> bool" where
  "key_lt (KNum a) (KNum b) = (a < b)"
| "key_lt (KNum a) (KStr t) = True"
| "key_lt (KNum a) (KArr ys) = True"
| "key_lt (KStr s) (KNum b) = False"
| "key_lt (KStr s) (KStr t) = str_lt s t"
| "key_lt (KStr s) (KArr ys) = True"
| "key_lt (KArr xs) (KNum b) = False"
| "key_lt (KArr xs) (KStr t) = False"
| "key_lt (KArr xs) (KArr ys) = keys_lt xs ys"
| "keys_lt [] [] = False"
| "keys_lt [] (y # ys) = True"
| "keys_lt (x # xs) [] = False"
| "keys_lt (x # xs) (y # ys) = (key_lt x y \<or> (x = y \<and> keys_lt xs ys))"

text \<open>A store is the list of its records in the order of their keys.\<close>

type_synonym object_store = "(key \<times> jsval) list"

fun insert_record :: "key \<Rightarrow> jsval \<Rightarrow> object_store \<Rightarrow> object_store" where
  "insert_record k v [] = [(k, v)]"
| "insert_record k v ((k', v') # rs) =
     (if key_lt k k' then (k, v) # (k', v') # rs
      else (k', v') # insert_record k v rs)"

definition remove_record :: "key \<Rightarrow> object_store \<Rightarrow> object_store" where
  "remove_record k s = filter (\<lambda>r. fst r \<noteq> k) s"

text \<open>Insert-or-replace: whatever the store held under the key is gone.\<close>

definition put_record :: "key \<Rightarrow> jsval \<Rightarrow> object_store \<Rightarrow> object_store" where
  "put_record k v s = insert_record k v (remove_record k s)"

definition get_record :: "object_store \<Rightarrow> key \<Rightarrow> jsval option" where
  "get_record s k = map_of s k"

definition getAll :: "object_store \<Rightarrow> jsval list" where
  "getAll s = map snd s"

record db =
  entries :: object_store
  settings :: object_store

definition fresh_db :: db where
  "fresh_db = \<lparr>entries = [], settings = []\<rparr>"

subsection \<open>Errors, promises and the engine\<close>

text \<open>
  What a promise rejects with: an error of the engine (by its name), an exception of the
  host, the error of the import, or \<open>null\<close>, which an \<open>error\<close> attribute holds as long as
  there is no error.
\<close>

datatype error =
    EngineError string
  | DataError
  | SyntaxError
  | TypeError
  | InvalidFormat
  | NoError

datatype 'a promise = Resolved 'a | Rejected error | Pending

text \<open>
  What the engine does to the requests of one transaction: nothing wrong; or
  \<open>RequestError i e t\<close>, the request number \<open>i\<close> (from 0) fails with the error \<open>e\<close>, and
  \<open>t\<close> is what \<open>transaction.error\<close> holds while the \<open>error\<close> event of that request is
  dispatched (the engine sets this attribute when it aborts the transaction, which it
  does after the dispatch: \<open>null\<close> in an engine that follows its specification); or
  every request succeeds and the commit fails.
\<close>

datatype fault = NoFault | RequestError nat error error | CommitError error

record engine =
  open_error :: "error option"
  read_error :: "error option"
  write_fault :: fault

definition healthy :: engine where
  "healthy = \<lparr>open_error = None, read_error = None, write_fault = NoFault\<rparr>"

text \<open>\<open>openDB\<close>: \<open>request.onerror = () => reject(request.error)\<close>, else the handle.\<close>

definition openDB :: "engine \<Rightarrow> error + unit" where
  "openDB eng = (case open_error eng of Some e \<Rightarrow> Inl e | None \<Rightarrow> Inr ())"

subsection \<open>Settings\<close>

definition default_settings :: AppSettings where
  "default_settings =
     \<lparr>theme = Light, securityEnabled = False, pin = None, biometricsEnabled = False,
      dailyReminder = False, reminderTime = ''20:00'', viewMode = List_view\<rparr>"

text \<open>
  \<open>getSettings\<close>: the promise is built with \<open>resolve\<close> only. \<open>onsuccess\<close> resolves with
  \<open>request.result?.value || {the default}\<close>, \<open>onerror\<close> resolves with \<open>{} as AppSettings\<close>.
  The \<open>await openDB()\<close> before it rejects the returned promise when the database does
  not open. The transaction is read-only.
\<close>

definition getSettings :: "engine \<Rightarrow> db \<Rightarrow> jsval promise \<times> db" where
  "getSettings eng d =
     (case openDB eng of
        Inl e \<Rightarrow> (Rejected e, d)
      | Inr _ \<Rightarrow>
          (case read_error eng of
             Some e \<Rightarrow> (Resolved (JObj []), d)
           | None \<Rightarrow>
               (Resolved (js_or (opt_chain (get_record (settings d) (KStr ''appSettings'')) ''value'')
                                (settings_to_js default_settings)), d)))"

subsection \<open>Requests and transactions\<close>

text \<open>
  \<open>store.put(value)\<close> on a store with a key path: the key is read from the value. When
  the value has no such property, or the property is not a key, \<open>put\<close> throws
  \<open>DataError\<close> at once and queues nothing. Otherwise the request joins the transaction.
\<close>

definition extract_key :: "string \<Rightarrow> jsval \<Rightarrow> key option" where
  "extract_key keyPath v = (case get_prop v keyPath of None \<Rightarrow> None | Some x \<Rightarrow> to_key x)"

definition store_put :: "string \<Rightarrow> jsval \<Rightarrow> error + (key \<times> jsval)" where
  "store_put keyPath v =
     (case extract_key keyPath v of None \<Rightarrow> Inl DataError | Some k \<Rightarrow> Inr (k, v))"

text \<open>
  The engine runs the queued requests in order on its working copy of the store. The
  first request that fails stops the run.
\<close>

fun request_fails :: "fault \<Rightarrow> nat \<Rightarrow> (error \<times> error) option" where
  "request_fails (RequestError j e t) i = (if i = j then Some (e, t) else None)"
| "request_fails _ i = None"

fun exec_requests :: "fault \<Rightarrow> nat \<Rightarrow> (key \<times> jsval) list \<Rightarrow> object_store \<Rightarrow> (error \<times> error) + object_store" where
  "exec_requests f i [] w = Inr w"
| "exec_requests f i ((k, v) # rs) w =
     (case request_fails f i of
        Some et \<Rightarrow> Inl et
      | None \<Rightarrow> exec_requests f (Suc i) rs (put_record k v w))"

text \<open>
  How a transaction ends: with the event \<open>complete\<close>, and the working copy becomes the
  store; with an \<open>error\<close> event of a failed request, which reaches the handlers of the
  request and of the transaction and aborts it; or with \<open>abort\<close> alone when the commit
  fails after every request has succeeded. An aborted transaction leaves the store as it
  was.
\<close>

datatype tx_end = Complete | ErrorThenAbort error error | AbortOnly error

definition run_transaction :: "fault \<Rightarrow> (key \<times> jsval) list \<Rightarrow> object_store \<Rightarrow> tx_end \<times> object_store" where
  "run_transaction f reqs s =
     (case exec_requests f 0 reqs s of
        Inl (e, t) \<Rightarrow> (ErrorThenAbort e t, s)
      | Inr w \<Rightarrow> (case f of CommitError e \<Rightarrow> (AbortOnly e, s) | _ \<Rightarrow> (Complete, w)))"

subsection \<open>Entries\<close>

text \<open>
  The comparator \<open>(a, b) => b.date - a.date\<close>. The difference of two numbers is a
  number; with a date that is not a number the model takes the difference to be \<open>NaN\<close>
  (\<open>None\<close>), which \<open>sort\<close> treats as 0. The conversion of other values to numbers is not
  modelled: the statements about the order are about records with numeric dates.
\<close>

fun date_of :: "jsval \<Rightarrow> int option" where
  "date_of v = (case get_prop v ''date'' of Some (JNum n) \<Rightarrow> Some n | _ \<Rightarrow> None)"

definition by_date_desc :: "jsval \<Rightarrow> jsval \<Rightarrow> int option" where
  "by_date_desc a b =
     (case (date_of b, date_of a) of (Some y, Some x) \<Rightarrow> Some (y - x) | _ \<Rightarrow> None)"

text \<open>
  \<open>Array.prototype.sort\<close> with a comparator is stable: an element moves behind another
  one only when the comparator is positive on them.
\<close>

fun comes_after :: "int option \<Rightarrow> bool" where
  "comes_after (Some n) = (0 < n)"
| "comes_after None = False"

fun insert_sorted :: "('a \<Rightarrow> 'a \<Rightarrow> int option) \<Rightarrow> 'a \<Rightarrow> 'a list \<Rightarrow> 'a list" where
  "insert_sorted c x [] = [x]"
| "insert_sorted c x (y # ys) =
     (if comes_after (c x y) then y # insert_sorted c x ys else x # y # ys)"

definition js_sort :: "('a \<Rightarrow> 'a \<Rightarrow> int option) \<Rightarrow> 'a list \<Rightarrow> 'a list" where
  "js_sort c xs = foldr (insert_sorted c) xs []"

text \<open>
  \<open>getAllEntries\<close>: \<open>onsuccess\<close> resolves with the sorted result of \<open>store.getAll()\<close>,
  \<open>onerror\<close> rejects with the error of the request.
\<close>

definition getAllEntries :: "engine \<Rightarrow> db \<Rightarrow> jsval list promise \<times> db" where
  "getAllEntries eng d =
     (case openDB eng of
        Inl e \<Rightarrow> (Rejected e, d)
      | Inr _ \<Rightarrow>
          (case read_error eng of
             Some e \<Rightarrow> (Rejected e, d)
           | None \<Rightarrow> (Resolved (js_sort by_date_desc (getAll (entries d))), d)))"

text \<open>
  \<open>saveEntry\<close>: one \<open>put\<close> in its own transaction. The promise listens to the request:
  \<open>onsuccess\<close> resolves it, also when the commit fails afterwards, and \<open>onerror\<close> rejects
  it with \<open>request.error\<close>. An exception of \<open>put\<close> inside the executor rejects the promise.
\<close>

fun settle_request :: "tx_end \<Rightarrow> unit promise" where
  "settle_request (ErrorThenAbort e t) = Rejected e"
| "settle_request Complete = Resolved ()"
| "settle_request (AbortOnly e) = Resolved ()"

definition saveEntry :: "engine \<Rightarrow> Entry \<Rightarrow> db \<Rightarrow> unit promise \<times> db" where
  "saveEntry eng entry d =
     (case openDB eng of
        Inl e \<Rightarrow> (Rejected e, d)
      | Inr _ \<Rightarrow>
          (case store_put ''id'' (entry_to_js entry) of
             Inl e \<Rightarrow> (Rejected e, d)
           | Inr r \<Rightarrow>
               (case run_transaction (write_fault eng) [r] (entries d) of
                  (fin, s) \<Rightarrow> (settle_request fin, d\<lparr>entries := s\<rparr>))))"

text \<open>\<open>saveSettings\<close>: \<open>store.put({ key: 'appSettings', value: settings })\<close>.\<close>

definition saveSettings :: "engine \<Rightarrow> AppSettings \<Rightarrow> db \<Rightarrow> unit promise \<times> db" where
  "saveSettings eng s d =
     (case openDB eng of
        Inl e \<Rightarrow> (Rejected e, d)
      | Inr _ \<Rightarrow>
          (case store_put ''key'' (JObj [(''key'', JStr ''appSettings''), (''value'', settings_to_js s)]) of
             Inl e \<Rightarrow> (Rejected e, d)
           | Inr r \<Rightarrow>
               (case run_transaction (write_fault eng) [r] (settings d) of
                  (fin, st) \<Rightarrow> (settle_request fin, d\<lparr>settings := st\<rparr>))))"

subsection \<open>Snapshots\<close>

text \<open>
  \<open>JSON.stringify\<close> and \<open>JSON.parse\<close> belong to the host, not to the repository: the two
  operations take them as parameters. \<open>JSON_parse\<close> returns \<open>None\<close> where the host throws
  \<open>SyntaxError\<close>.
\<close>

definition exportData :: "(jsval \<Rightarrow> string) \<Rightarrow> engine \<Rightarrow> db \<Rightarrow> string promise \<times> db" where
  "exportData JSON_stringify eng d =
     (case getAllEntries eng d of
        (Resolved es, d') \<Rightarrow> (Resolved (JSON_stringify (JArr es)), d')
      | (Rejected e, d') \<Rightarrow> (Rejected e, d')
      | (Pending, d') \<Rightarrow> (Pending, d'))"

text \<open>
  \<open>for (const entry of entries)\<close>: arrays give their elements and strings their
  characters; every other value is not iterable and the loop throws \<open>TypeError\<close>.
\<close>

fun iterate :: "jsval \<Rightarrow> jsval list option" where
  "iterate (JArr xs) = Some xs"
| "iterate (JStr s) = Some (map (\<lambda>c. JStr [c]) s)"
| "iterate _ = None"

text \<open>
  The loop \<open>store.put(entry)\<close>: the requests queued before the first \<open>put\<close> that throws,
  and the exception if there is one.
\<close>

fun put_loop :: "jsval list \<Rightarrow> (key \<times> jsval) list \<times> error option" where
  "put_loop [] = ([], None)"
| "put_loop (v # vs) =
     (case store_put ''id'' v of
        Inl e \<Rightarrow> ([], Some e)
      | Inr r \<Rightarrow> (case put_loop vs of (rs, thrown) \<Rightarrow> (r # rs, thrown)))"

text \<open>
  The promise of \<open>importData\<close> listens to the transaction: \<open>oncomplete\<close> resolves it and
  \<open>onerror\<close> rejects it with \<open>transaction.error\<close>, as read in that handler. No handler
  listens to \<open>abort\<close>: when the commit fails the promise stays pending.
\<close>

fun settle_transaction :: "tx_end \<Rightarrow> unit promise" where
  "settle_transaction Complete = Resolved ()"
| "settle_transaction (ErrorThenAbort e t) = Rejected t"
| "settle_transaction (AbortOnly e) = Pending"

text \<open>
  The body of the \<open>try\<close> block. \<open>Inl\<close> is an exception thrown inside it: by \<open>JSON.parse\<close>,
  by \<open>await openDB()\<close>, by the loop header or by a \<open>put\<close>. The transaction is created
  before the loop and nothing aborts it when the loop throws: the requests queued so far
  are its requests, and it ends as the engine decides. \<open>Inr\<close> is the promise returned
  from the block (returned without \<open>await\<close>, so its rejection does not pass through
  \<open>catch\<close>).
\<close>

definition import_try :: "(string \<Rightarrow> jsval option) \<Rightarrow> engine \<Rightarrow> string \<Rightarrow> db \<Rightarrow> (error + unit promise) \<times> db" where
  "import_try JSON_parse eng jsonString d =
     (case JSON_parse jsonString of
        None \<Rightarrow> (Inl SyntaxError, d)
      | Some entries_val \<Rightarrow>
          (case openDB eng of
             Inl e \<Rightarrow> (Inl e, d)
           | Inr _ \<Rightarrow>
               (case iterate entries_val of
                  None \<Rightarrow> (Inl TypeError, d)
                | Some items \<Rightarrow>
                    (case put_loop items of
                       (reqs, thrown) \<Rightarrow>
                         (case run_transaction (write_fault eng) reqs (entries d) of
                            (fin, s) \<Rightarrow>
                              (case thrown of
                                 Some e \<Rightarrow> (Inl e, d\<lparr>entries := s\<rparr>)
                               | None \<Rightarrow> (Inr (settle_transaction fin), d\<lparr>entries := s\<rparr>)))))))"

text \<open>
  \<open>catch (e) { throw new Error(...) }\<close>: whatever was thrown inside the block, the
  promise of \<open>importData\<close> rejects with the one error of the import, \<open>InvalidFormat\<close>.
\<close>

definition importData :: "(string \<Rightarrow> jsval option) \<Rightarrow> engine \<Rightarrow> string \<Rightarrow> db \<Rightarrow> unit promise \<times> db" where
  "importData JSON_parse eng jsonString d =
     (case import_try JSON_parse eng jsonString d of
        (Inl e, d') \<Rightarrow> (Rejected InvalidFormat, d')
      | (Inr p, d') \<Rightarrow> (p, d'))"

subsection \<open>A reference codec\<close>

text \<open>
  A decoder and an encoder for the fragment of JSON that the values above cover, to run
  the two snapshot operations with: integer numbers (a number with a fraction or an
  exponent is outside the fragment and is not decoded), characters and \<open>u\<close>-escapes
  below 256, objects whose members keep the order of the text. The encoder writes no
  white space and escapes the quote, the backslash and the characters below 32, as
  \<open>JSON.stringify\<close> with one argument does.
\<close>

definition is_ws :: "char \<Rightarrow> bool" where
  "is_ws c = (c = CHR 0x20 \<or> c = CHR 0x09 \<or> c = CHR 0x0A \<or> c = CHR 0x0D)"

fun skip_ws :: "string \<Rightarrow> string" where
  "skip_ws [] = []"
| "skip_ws (c # cs) = (if is_ws c then skip_ws cs else c # cs)"

definition is_digit :: "char \<Rightarrow> bool" where
  "is_digit c = (48 \<le> (of_char c :: nat) \<and> (of_char c :: nat) \<le> 57)"

definition digit_val :: "char \<Rightarrow> nat" where
  "digit_val c = of_char c - 48"

fun read_digits :: "nat \<Rightarrow> string \<Rightarrow> nat \<times> string" where
  "read_digits acc [] = (acc, [])"
| "read_digits acc (c # cs) =
     (if is_digit c then read_digits (10 * acc + digit_val c) cs else (acc, c # cs))"

definition starts_fraction :: "string \<Rightarrow> bool" where
  "starts_fraction cs =
     (case cs of [] \<Rightarrow> False | c # _ \<Rightarrow> c = CHR ''.'' \<or> c = CHR ''e'' \<or> c = CHR ''E'')"

definition parse_nat :: "string \<Rightarrow> (nat \<times> string) option" where
  "parse_nat cs =
     (case cs of
        [] \<Rightarrow> None
      | c # r \<Rightarrow>
          if \<not> is_digit c then None
          else (case (if c = CHR ''0'' then (0, r) else read_digits 0 cs) of
                  (n, r') \<Rightarrow> if starts_fraction r' then None else Some (n, r')))"

definition parse_number :: "string \<Rightarrow> (jsval \<times> string) option" where
  "parse_number cs =
     (case cs of
        [] \<Rightarrow> None
      | c # r \<Rightarrow>
          if c = CHR ''-'' then map_option (\<lambda>(n, r'). (JNum (- int n), r')) (parse_nat r)
          else map_option (\<lambda>(n, r'). (JNum (int n), r')) (parse_nat cs))"

definition hex_val :: "char \<Rightarrow> nat option" where
  "hex_val c =
     (let n = (of_char c :: nat) in
      if 48 \<le> n \<and> n \<le> 57 then Some (n - 48)
      else if 65 \<le> n \<and> n \<le> 70 then Some (n - 55)
      else if 97 \<le> n \<and> n \<le> 102 then Some (n - 87)
      else None)"

definition hex4 :: "char \<Rightarrow> char \<Rightarrow> char \<Rightarrow> char \<Rightarrow> nat option" where
  "hex4 a b c d =
     (case (hex_val a, hex_val b, hex_val c, hex_val d) of
        (Some w, Some x, Some y, Some z) \<Rightarrow> Some (((w * 16 + x) * 16 + y) * 16 + z)
      | _ \<Rightarrow> None)"

definition unescape :: "char \<Rightarrow> char option" where
  "unescape e =
     (if e = CHR 0x22 \<or> e = CHR 0x5C \<or> e = CHR ''/'' then Some e
      else if e = CHR ''b'' then Some (CHR 0x08)
      else if e = CHR ''f'' then Some (CHR 0x0C)
      else if e = CHR ''n'' then Some (CHR 0x0A)
      else if e = CHR ''r'' then Some (CHR 0x0D)
      else if e = CHR ''t'' then Some (CHR 0x09)
      else None)"

definition cons_char :: "char \<Rightarrow> (string \<times> string) option \<Rightarrow> (string \<times> string) option" where
  "cons_char c r = map_option (\<lambda>(s, rest). (c # s, rest)) r"

text \<open>The characters of a string after its opening quote, up to the closing one.\<close>

fun parse_chars :: "string \<Rightarrow> (string \<times> string) option" where
  "parse_chars [] = None"
| "parse_chars [c] = (if c = CHR 0x22 then Some ([], []) else None)"
| "parse_chars (c # e # cs) =
     (if c = CHR 0x22 then Some ([], e # cs)
      else if c = CHR 0x5C then
        (if e = CHR ''u'' then
           (case cs of
              h1 # h2 # h3 # h4 # cs' \<Rightarrow>
                (case hex4 h1 h2 h3 h4 of
                   Some n \<Rightarrow> if n < 256 then cons_char (char_of n) (parse_chars cs') else None
                 | None \<Rightarrow> None)
            | _ \<Rightarrow> None)
         else (case unescape e of
                 None \<Rightarrow> None
               | Some x \<Rightarrow> cons_char x (parse_chars cs)))
      else if (of_char c :: nat) < 32 then None
      else cons_char c (parse_chars (e # cs)))"

text \<open>A repeated member name keeps its first place and takes the last value.\<close>

fun obj_set :: "string \<Rightarrow> jsval \<Rightarrow> (string \<times> jsval) list \<Rightarrow> (string \<times> jsval) list" where
  "obj_set name v [] = [(name, v)]"
| "obj_set name v ((n, w) # fs) =
     (if n = name then (n, v) # fs else (n, w) # obj_set name v fs)"

definition literal :: "string \<Rightarrow> jsval \<Rightarrow> string \<Rightarrow> (jsval \<times> string) option" where
  "literal word v cs =
     (if take (length word) cs = word then Some (v, drop (length word) cs) else None)"

text \<open>
  The first argument bounds the number of calls; the length of the text is enough,
  since every call reads at least one character.
\<close>

fun parse_value :: "nat \<Rightarrow> string \<Rightarrow> (jsval \<times> string) option"
  and parse_elements :: "nat \<Rightarrow> jsval list \<Rightarrow> string \<Rightarrow> (jsval \<times> string) option"
  and parse_members :: "nat \<Rightarrow> (string \<times> jsval) list \<Rightarrow> string \<Rightarrow> (jsval \<times> string) option" where
  "parse_value 0 cs = None"
| "parse_value (Suc n) cs =
     (case skip_ws cs of
        [] \<Rightarrow> None
      | c # r \<Rightarrow>
          if c = CHR ''['' then
            (case skip_ws r of
               [] \<Rightarrow> None
             | c' # r' \<Rightarrow> if c' = CHR '']'' then Some (JArr [], r') else parse_elements n [] r)
          else if c = CHR ''{'' then
            (case skip_ws r of
               [] \<Rightarrow> None
             | c' # r' \<Rightarrow> if c' = CHR ''}'' then Some (JObj [], r') else parse_members n [] r)
          else if c = CHR 0x22 then map_option (\<lambda>(s, r'). (JStr s, r')) (parse_chars r)
          else if c = CHR ''n'' then literal ''null'' JNull (c # r)
          else if c = CHR ''t'' then literal ''true'' (JBool True) (c # r)
          else if c = CHR ''f'' then literal ''false'' (JBool False) (c # r)
          else parse_number (c # r))"
| "parse_elements 0 acc cs = None"
| "parse_elements (Suc n) acc cs =
     (case parse_value n cs of
        None \<Rightarrow> None
      | Some (v, r) \<Rightarrow>
          (case skip_ws r of
             [] \<Rightarrow> None
           | c # r' \<Rightarrow>
               if c = CHR '','' then parse_elements n (acc @ [v]) r'
               else if c = CHR '']'' then Some (JArr (acc @ [v]), r')
               else None))"
| "parse_members 0 acc cs = None"
| "parse_members (Suc n) acc cs =
     (case skip_ws cs of
        [] \<Rightarrow> None
      | q # r \<Rightarrow>
          if q \<noteq> CHR 0x22 then None
          else
            (case parse_chars r of
               None \<Rightarrow> None
             | Some (name, r1) \<Rightarrow>
                 (case skip_ws r1 of
                    [] \<Rightarrow> None
                  | c # r2 \<Rightarrow>
                      if c \<noteq> CHR '':'' then None
                      else
                        (case parse_value n r2 of
                           None \<Rightarrow> None
                         | Some (v, r3) \<Rightarrow>
                             (case skip_ws r3 of
                                [] \<Rightarrow> None
                              | c' # r4 \<Rightarrow>
                                  if c' = CHR '','' then parse_members n (obj_set name v acc) r4
                                  else if c' = CHR ''}'' then Some (JObj (obj_set name v acc), r4)
                                  else None)))))"

definition json_parse :: "string \<Rightarrow> jsval option" where
  "json_parse txt =
     (case parse_value (Suc (length txt)) txt of
        None \<Rightarrow> None
      | Some (v, r) \<Rightarrow> if skip_ws r = [] then Some v else None)"

definition digit_char :: "nat \<Rightarrow> char" where
  "digit_char n = char_of (48 + n)"

function show_nat :: "nat \<Rightarrow> string" where
  "show_nat n = (if n < 10 then [digit_char n] else show_nat (n div 10) @ [digit_char (n mod 10)])"
  by pat_completeness auto
termination
  by (relation "measure (\<lambda>n. n)") auto

declare show_nat.simps [simp del]

definition show_int :: "int \<Rightarrow> string" where
  "show_int i = (if i < 0 then CHR ''-'' # show_nat (nat (- i)) else show_nat (nat i))"

definition hex_digit :: "nat \<Rightarrow> char" where
  "hex_digit n = (if n < 10 then char_of (48 + n) else char_of (87 + n))"

definition escape_char :: "char \<Rightarrow> string" where
  "escape_char c =
     (if c = CHR 0x22 then [CHR 0x5C, CHR 0x22]
      else if c = CHR 0x5C then [CHR 0x5C, CHR 0x5C]
      else if c = CHR 0x08 then [CHR 0x5C, CHR ''b'']
      else if c = CHR 0x0C then [CHR 0x5C, CHR ''f'']
      else if c = CHR 0x0A then [CHR 0x5C, CHR ''n'']
      else if c = CHR 0x0D then [CHR 0x5C, CHR ''r'']
      else if c = CHR 0x09 then [CHR 0x5C, CHR ''t'']
      else if (of_char c :: nat) < 32 then
        [CHR 0x5C, CHR ''u'', CHR ''0'', CHR ''0'',
         hex_digit (of_char c div 16), hex_digit (of_char c mod 16)]
      else [c])"

definition quote :: "string \<Rightarrow> string" where
  "quote s = CHR 0x22 # concat (map escape_char s) @ [CHR 0x22]"

fun commas :: "string list \<Rightarrow> string" where
  "commas [] = []"
| "commas [x] = x"
| "commas (x # y # ys) = x @ CHR '','' # commas (y # ys)"

fun json_stringify :: "jsval \<Rightarrow> string" where
  "json_stringify JNull = ''null''"
| "json_stringify (JBool b) = (if b then ''true'' else ''false'')"
| "json_stringify (JNum n) = show_int n"
| "json_stringify (JStr s) = quote s"
| "json_stringify (JArr xs) = CHR ''['' # commas (map json_stringify xs) @ '']''"
| "json_stringify (JObj fs) =
     CHR ''{'' # commas (map (\<lambda>(n, v). quote n @ CHR '':'' # json_stringify v) fs) @ ''}''"

section \<open>Notions used in the statements\<close>

text \<open>
  The invariant of an object store with a key path: no two records share a key, and the
  key of a record is the one that its value carries under the key path.
\<close>

definition wf_store :: "string \<Rightarrow> object_store \<Rightarrow> bool" where
  "wf_store keyPath s =
     (distinct (map fst s) \<and> list_all (\<lambda>r. extract_key keyPath (snd r) = Some (fst r)) s)"

text \<open>A sequence of \<open>saveEntry\<close> calls, each under its own behaviour of the engine.\<close>

fun save_all :: "(engine \<times> Entry) list \<Rightarrow> db \<Rightarrow> db" where
  "save_all [] d = d"
| "save_all ((eng, e) # calls) d = save_all calls (snd (saveEntry eng e d))"

text \<open>The store after every request of a list has been carried out.\<close>

definition apply_requests :: "(key \<times> jsval) list \<Rightarrow> object_store \<Rightarrow> object_store" where
  "apply_requests reqs w = fold (\<lambda>r. put_record (fst r) (snd r)) reqs w"

text \<open>
  The order of the listing: \<open>a\<close> may stand before \<open>b\<close> when both have a numeric date
  and the date of \<open>a\<close> is not the smaller one.
\<close>

definition not_older :: "jsval \<Rightarrow> jsval \<Rightarrow> bool" where
  "not_older a b = (case (date_of a, date_of b) of (Some x, Some y) \<Rightarrow> y \<le> x | _ \<Rightarrow> False)"

text \<open>An entry as the editor creates it, and a database that holds three of them.\<close>

definition sample_entry :: "string \<Rightarrow> int \<Rightarrow> string \<Rightarrow> Entry" where
  "sample_entry i t ttl =
     \<lparr>entry_id = i, title = ttl, content = '''', date = t, updatedAt = t, mood = ''ok'',
      tags = [], category = ''Pessoal'', isFavorite = False, isPrivate = False, images = [],
      audio = None, drawing = None, location = None\<rparr>"

definition three_days :: db where
  "three_days =
     save_all [(healthy, sample_entry ''a'' 100 ''Day 1''),
               (healthy, sample_entry ''b'' 300 ''Day 2''),
               (healthy, sample_entry ''c'' 200 ''Day 3'')] fresh_db"

text \<open>
  What the import looks at in a record: whether it carries a key under \<open>id\<close>. The
  requests that a sequence of such records queues, and the store after each record of a
  sequence has been inserted or has replaced the record of its id.
\<close>

definition has_key :: "jsval \<Rightarrow> bool" where
  "has_key v = (extract_key ''id'' v \<noteq> None)"

definition requests_of :: "jsval list \<Rightarrow> (key \<times> jsval) list" where
  "requests_of vs = map (\<lambda>v. (the (extract_key ''id'' v), v)) vs"

fun upsert_all :: "jsval list \<Rightarrow> object_store \<Rightarrow> object_store" where
  "upsert_all [] s = s"
| "upsert_all (v # vs) s =
     upsert_all vs (case extract_key ''id'' v of Some k \<Rightarrow> put_record k v s | None \<Rightarrow> s)"

text \<open>
  Notions for the reference codec: what may follow an encoded value, the encoded text of
  a string after its opening quote, the first character of an encoded value, the encoded
  member of an object, and the values all of whose objects have distinct member names
  (as every object has).
\<close>

definition ends_value :: "string \<Rightarrow> bool" where
  "ends_value rest =
     (case rest of [] \<Rightarrow> True | c # _ \<Rightarrow> c = CHR '','' \<or> c = CHR '']'' \<or> c = CHR ''}'')"

definition string_body :: "string \<Rightarrow> string \<Rightarrow> string" where
  "string_body s rest = concat (map escape_char s) @ CHR 0x22 # rest"

definition starts_value :: "char \<Rightarrow> bool" where
  "starts_value c =
     (c = CHR ''['' \<or> c = CHR ''{'' \<or> c = CHR 0x22 \<or> c = CHR ''n'' \<or> c = CHR ''t''
      \<or> c = CHR ''f'' \<or> c = CHR ''-'' \<or> is_digit c)"

definition member_text :: "string \<times> jsval \<Rightarrow> string" where
  "member_text p = quote (fst p) @ CHR '':'' # json_stringify (snd p)"

fun distinct_names :: "jsval \<Rightarrow> bool" where
  "distinct_names (JArr xs) = list_all distinct_names xs"
| "distinct_names (JObj fs) = (distinct (map fst fs) \<and> list_all (\<lambda>p. distinct_names (snd p)) fs)"
| "distinct_names _ = True"

section \<open>Facts about stores, requests and transactions\<close>

lemma set_insert_record: "set (insert_record k v s) = insert (k, v) (set s)"
  by (induction k v s rule: insert_record.induct) auto

lemma mset_insert_record: "mset (insert_record k v s) = add_mset (k, v) (mset s)"
  by (induction k v s rule: insert_record.induct) auto

lemma distinct_insert_record:
  "distinct (map fst s) \<Longrightarrow> k \<notin> fst ` set s \<Longrightarrow> distinct (map fst (insert_record k v s))"
  by (induction k v s rule: insert_record.induct) (auto simp: set_insert_record)

lemma map_of_insert_record:
  "k \<notin> fst ` set s \<Longrightarrow> map_of (insert_record k v s) = (map_of s)(k \<mapsto> v)"
  by (induction k v s rule: insert_record.induct) (auto simp: fun_upd_twist)

lemma set_remove_record: "set (remove_record k s) = {r \<in> set s. fst r \<noteq> k}"
  by (auto simp: remove_record_def)

lemma key_notin_remove_record: "k \<notin> fst ` set (remove_record k s)"
  by (auto simp: remove_record_def)

lemma map_of_remove_record: "map_of (remove_record k s) = (map_of s)(k := None)"
  by (induction s) (auto simp: remove_record_def)

lemma remove_record_absent: "k \<notin> fst ` set s \<Longrightarrow> remove_record k s = s"
  unfolding remove_record_def by (induction s) auto

lemma set_put_record: "set (put_record k v s) = insert (k, v) {r \<in> set s. fst r \<noteq> k}"
  by (simp add: put_record_def set_insert_record set_remove_record)

lemma map_of_put_record: "map_of (put_record k v s) = (map_of s)(k \<mapsto> v)"
  by (simp add: put_record_def map_of_insert_record key_notin_remove_record map_of_remove_record)

lemma get_put_record: "get_record (put_record k v s) k' = (if k' = k then Some v else get_record s k')"
  by (simp add: get_record_def map_of_put_record)

lemma distinct_put_record: "distinct (map fst s) \<Longrightarrow> distinct (map fst (put_record k v s))"
  unfolding put_record_def
  by (rule distinct_insert_record) (auto simp: remove_record_def distinct_map_filter)

lemma wf_store_put_record:
  assumes "wf_store p s" and "extract_key p v = Some k"
  shows "wf_store p (put_record k v s)"
  using assms
  by (auto simp: wf_store_def distinct_put_record list_all_iff set_put_record)

lemma filter_key_absent: "k \<notin> fst ` set s \<Longrightarrow> filter (\<lambda>r. fst r = k) s = []"
  by (induction s) auto

lemma filter_key_insert_record:
  "k \<notin> fst ` set s \<Longrightarrow> filter (\<lambda>r. fst r = k) (insert_record k v s) = [(k, v)]"
proof (induction k v s rule: insert_record.induct)
  case (1 k v)
  then show ?case by simp
next
  case (2 k v k' v' rs)
  from "2.prems" have "k' \<noteq> k" and "k \<notin> fst ` set rs"
    by auto
  moreover from \<open>k \<notin> fst ` set rs\<close> have "filter (\<lambda>r. fst r = k) rs = []"
    by (rule filter_key_absent)
  ultimately show ?case
    using "2.IH" by simp
qed

lemma filter_key_put_record: "filter (\<lambda>r. fst r = k) (put_record k v s) = [(k, v)]"
  unfolding put_record_def
  by (rule filter_key_insert_record) (rule key_notin_remove_record)

lemma length_filter_key_le1:
  "distinct (map fst s) \<Longrightarrow> length (filter (\<lambda>r. fst r = k) s) \<le> 1"
proof (induction s)
  case Nil
  then show ?case by simp
next
  case (Cons r s)
  show ?case
  proof (cases "fst r = k")
    case True
    with Cons.prems have "k \<notin> fst ` set s"
      by auto
    then have "filter (\<lambda>r. fst r = k) s = []"
      by (rule filter_key_absent)
    with True show ?thesis by simp
  next
    case False
    with Cons show ?thesis by simp
  qed
qed

lemma to_key_KStr: "to_key x = Some (KStr i) \<longleftrightarrow> x = JStr i"
  by (cases x) auto

lemma extract_key_id_JStr:
  "extract_key ''id'' v = Some (KStr i) \<longleftrightarrow> get_prop v ''id'' = Some (JStr i)"
  by (auto simp: extract_key_def to_key_KStr split: option.splits)

lemma filter_by_id:
  assumes "wf_store ''id'' s"
  shows "filter (\<lambda>v. get_prop v ''id'' = Some (JStr i)) (getAll s)
         = map snd (filter (\<lambda>r. fst r = KStr i) s)"
proof -
  have "\<And>r. r \<in> set s \<Longrightarrow> (get_prop (snd r) ''id'' = Some (JStr i)) = (fst r = KStr i)"
    using assms by (auto simp: wf_store_def list_all_iff extract_key_id_JStr [symmetric])
  then show ?thesis
    by (simp add: getAll_def filter_map comp_def cong: filter_cong)
qed

lemma extract_key_entry [simp]: "extract_key ''id'' (entry_to_js e) = Some (KStr (entry_id e))"
  by (simp add: extract_key_def entry_to_js_def)

lemma store_put_entry [simp]:
  "store_put ''id'' (entry_to_js e) = Inr (KStr (entry_id e), entry_to_js e)"
  by (simp add: store_put_def)

lemma exec_requests_cases:
  "exec_requests f i reqs w = Inr (apply_requests reqs w) \<or> (\<exists>et. exec_requests f i reqs w = Inl et)"
  by (induction f i reqs w rule: exec_requests.induct)
     (auto simp: apply_requests_def split: option.splits)

lemma exec_requests_NoFault: "exec_requests NoFault i reqs w = Inr (apply_requests reqs w)"
  by (induction reqs arbitrary: i w) (auto simp: apply_requests_def)

lemma run_transaction_NoFault: "run_transaction NoFault reqs s = (Complete, apply_requests reqs s)"
  by (simp add: run_transaction_def exec_requests_NoFault)

lemma run_transaction_cases:
  "run_transaction f reqs s = (Complete, apply_requests reqs s)
   \<or> (\<exists>e t. run_transaction f reqs s = (ErrorThenAbort e t, s))
   \<or> (\<exists>e. run_transaction f reqs s = (AbortOnly e, s))"
  using exec_requests_cases [of f 0 reqs s]
  by (auto simp: run_transaction_def split: fault.splits)

lemma wf_store_apply_requests:
  "wf_store p s \<Longrightarrow> list_all (\<lambda>r. extract_key p (snd r) = Some (fst r)) reqs
   \<Longrightarrow> wf_store p (apply_requests reqs s)"
  unfolding apply_requests_def
  by (induction reqs arbitrary: s) (auto simp: wf_store_put_record)

lemma wf_store_run_transaction:
  "wf_store p s \<Longrightarrow> list_all (\<lambda>r. extract_key p (snd r) = Some (fst r)) reqs
   \<Longrightarrow> wf_store p (snd (run_transaction f reqs s))"
  using run_transaction_cases [of f reqs s] by (auto simp: wf_store_apply_requests)

lemma entries_saveEntry:
  "entries (snd (saveEntry eng e d)) = entries d
   \<or> entries (snd (saveEntry eng e d)) = put_record (KStr (entry_id e)) (entry_to_js e) (entries d)"
  using run_transaction_cases [of "write_fault eng" "[(KStr (entry_id e), entry_to_js e)]" "entries d"]
  by (auto simp: saveEntry_def apply_requests_def split: sum.splits)

lemma saveEntry_NoFault:
  "open_error eng = None \<Longrightarrow> write_fault eng = NoFault \<Longrightarrow>
   saveEntry eng e d = (Resolved (), d\<lparr>entries := put_record (KStr (entry_id e)) (entry_to_js e) (entries d)\<rparr>)"
  by (simp add: saveEntry_def openDB_def run_transaction_NoFault apply_requests_def)

lemma wf_store_saveEntry:
  "wf_store ''id'' (entries d) \<Longrightarrow> wf_store ''id'' (entries (snd (saveEntry eng e d)))"
  using entries_saveEntry [of eng e d] by (auto simp: wf_store_put_record)

lemma wf_store_save_all:
  "wf_store ''id'' (entries d) \<Longrightarrow> wf_store ''id'' (entries (save_all calls d))"
  by (induction calls d rule: save_all.induct) (auto simp: wf_store_saveEntry)

subsection \<open>The sort of the listing\<close>

lemma mset_insert_sorted: "mset (insert_sorted c x ys) = add_mset x (mset ys)"
  by (induction ys) auto

lemma mset_js_sort: "mset (js_sort c xs) = mset xs"
  unfolding js_sort_def by (induction xs) (auto simp: mset_insert_sorted)

lemma set_insert_sorted: "set (insert_sorted c x ys) = insert x (set ys)"
  by (induction ys) auto

lemma set_js_sort: "set (js_sort c xs) = set xs"
  using mset_js_sort [of c xs] by (metis set_mset_mset)

lemma comes_after_by_date:
  "date_of a = Some x \<Longrightarrow> date_of b = Some y \<Longrightarrow> comes_after (by_date_desc a b) = (x < y)"
  by (simp add: by_date_desc_def)

lemma not_older_dates:
  "date_of a = Some x \<Longrightarrow> date_of b = Some y \<Longrightarrow> not_older a b = (y \<le> x)"
  by (simp add: not_older_def)

lemma sorted_insert_sorted:
  assumes "sorted_wrt not_older ys" and "date_of x \<noteq> None"
    and "list_all (\<lambda>v. date_of v \<noteq> None) ys"
  shows "sorted_wrt not_older (insert_sorted by_date_desc x ys)"
  using assms
proof (induction ys)
  case Nil
  then show ?case by simp
next
  case (Cons y ys)
  from Cons.prems obtain dx dy where dx: "date_of x = Some dx" and dy: "date_of y = Some dy"
    by auto
  have rest: "\<forall>z\<in>set ys. not_older y z" and sorted_ys: "sorted_wrt not_older ys"
    using Cons.prems(1) by simp_all
  show ?case
  proof (cases "dx < dy")
    case True
    have "not_older y x"
      using True by (simp add: not_older_dates [OF dy dx])
    moreover have "sorted_wrt not_older (insert_sorted by_date_desc x ys)"
      using Cons.IH sorted_ys Cons.prems by simp
    ultimately show ?thesis
      using True rest by (simp add: comes_after_by_date [OF dx dy] set_insert_sorted)
  next
    case False
    have xy: "not_older x y"
      using False by (simp add: not_older_dates [OF dx dy])
    have "not_older x z" if "z \<in> set ys" for z
    proof -
      from that Cons.prems(3) obtain dz where dz: "date_of z = Some dz"
        by (auto simp: list_all_iff)
      from rest that have "not_older y z" by blast
      then have "dz \<le> dy" by (simp add: not_older_dates [OF dy dz])
      with False show ?thesis by (simp add: not_older_dates [OF dx dz])
    qed
    then show ?thesis
      using False xy Cons.prems(1) by (simp add: comes_after_by_date [OF dx dy])
  qed
qed

lemma sorted_js_sort:
  "list_all (\<lambda>v. date_of v \<noteq> None) xs \<Longrightarrow> sorted_wrt not_older (js_sort by_date_desc xs)"
proof (induction xs)
  case Nil
  then show ?case by (simp add: js_sort_def)
next
  case (Cons x xs)
  then have "sorted_wrt not_older (js_sort by_date_desc xs)" by simp
  moreover have "list_all (\<lambda>v. date_of v \<noteq> None) (js_sort by_date_desc xs)"
    using Cons.prems by (simp add: list_all_iff set_js_sort)
  ultimately have "sorted_wrt not_older (insert_sorted by_date_desc x (js_sort by_date_desc xs))"
    using Cons.prems by (intro sorted_insert_sorted) simp_all
  then show ?case by (simp add: js_sort_def)
qed

subsection \<open>The import loop\<close>

lemma put_loop_all_valid:
  "list_all has_key vs \<Longrightarrow> put_loop vs = (requests_of vs, None)"
  by (induction vs) (auto simp: requests_of_def has_key_def store_put_def)

lemma put_loop_first_invalid:
  "list_all has_key pre \<Longrightarrow> \<not> has_key bad
   \<Longrightarrow> put_loop (pre @ bad # post) = (requests_of pre, Some DataError)"
  by (induction pre) (auto simp: requests_of_def has_key_def store_put_def)

lemma put_loop_no_throw: "snd (put_loop vs) = None \<Longrightarrow> list_all has_key vs"
  by (induction vs) (auto simp: has_key_def store_put_def split: option.splits prod.splits)

lemma apply_requests_of:
  "list_all has_key vs \<Longrightarrow> apply_requests (requests_of vs) s = upsert_all vs s"
  by (induction vs arbitrary: s) (auto simp: apply_requests_def requests_of_def has_key_def)

lemma requests_of_wf:
  "list_all has_key vs \<Longrightarrow> list_all (\<lambda>r. extract_key ''id'' (snd r) = Some (fst r)) (requests_of vs)"
  by (induction vs) (auto simp: requests_of_def has_key_def)

lemma get_record_upsert_all:
  "get_record (upsert_all vs s) k =
     (case filter (\<lambda>v. extract_key ''id'' v = Some k) vs of
        [] \<Rightarrow> get_record s k
      | m # ms \<Rightarrow> Some (last (m # ms)))"
proof (induction vs arbitrary: s)
  case Nil
  then show ?case by simp
next
  case (Cons v vs)
  show ?case
  proof (cases "extract_key ''id'' v")
    case None
    then show ?thesis using Cons.IH [of s] by simp
  next
    case (Some k')
    then show ?thesis
      using Cons.IH [of "put_record k' v s"]
      by (auto simp: get_put_record split: list.splits)
  qed
qed

subsection \<open>\<open>importData\<close>, case by case\<close>

lemma importData_syntax_error:
  "JSON_parse jsonString = None \<Longrightarrow> importData JSON_parse eng jsonString d = (Rejected InvalidFormat, d)"
  by (simp add: importData_def import_try_def)

lemma importData_open_failure:
  "open_error eng = Some e \<Longrightarrow> importData JSON_parse eng jsonString d = (Rejected InvalidFormat, d)"
  by (simp add: importData_def import_try_def openDB_def split: option.splits)

lemma importData_not_iterable:
  "JSON_parse jsonString = Some v \<Longrightarrow> iterate v = None
   \<Longrightarrow> importData JSON_parse eng jsonString d = (Rejected InvalidFormat, d)"
  by (simp add: importData_def import_try_def split: option.splits sum.splits)

lemma importData_items:
  assumes "JSON_parse jsonString = Some v" and "iterate v = Some vs" and "open_error eng = None"
  shows "importData JSON_parse eng jsonString d =
     (case put_loop vs of
        (reqs, thrown) \<Rightarrow>
          (case run_transaction (write_fault eng) reqs (entries d) of
             (fin, s) \<Rightarrow>
               ((case thrown of Some e \<Rightarrow> Rejected InvalidFormat | None \<Rightarrow> settle_transaction fin),
                d\<lparr>entries := s\<rparr>)))"
  using assms
  by (simp add: importData_def import_try_def openDB_def split: option.splits prod.splits)

lemma importData_all_valid:
  assumes "JSON_parse jsonString = Some v" and "iterate v = Some vs" and "open_error eng = None"
    and "list_all has_key vs"
  shows "importData JSON_parse eng jsonString d =
     (settle_transaction (fst (run_transaction (write_fault eng) (requests_of vs) (entries d))),
      d\<lparr>entries := snd (run_transaction (write_fault eng) (requests_of vs) (entries d))\<rparr>)"
  using importData_items [where JSON_parse = JSON_parse and jsonString = jsonString and v = v and vs = vs
      and eng = eng and d = d] assms
  by (simp add: put_loop_all_valid split: prod.splits)

lemma importData_first_invalid:
  assumes "JSON_parse jsonString = Some v" and "iterate v = Some (pre @ bad # post)"
    and "open_error eng = None" and "list_all has_key pre" and "\<not> has_key bad"
  shows "importData JSON_parse eng jsonString d =
     (Rejected InvalidFormat,
      d\<lparr>entries := snd (run_transaction (write_fault eng) (requests_of pre) (entries d))\<rparr>)"
  using importData_items [where JSON_parse = JSON_parse and jsonString = jsonString and v = v
      and vs = "pre @ bad # post" and eng = eng and d = d] assms
  by (simp add: put_loop_first_invalid split: prod.splits)

lemma run_transaction_atomic:
  "(fst (run_transaction f reqs s) = Complete \<and> snd (run_transaction f reqs s) = apply_requests reqs s)
   \<or> (fst (run_transaction f reqs s) \<noteq> Complete \<and> snd (run_transaction f reqs s) = s)"
  using run_transaction_cases [of f reqs s] by auto

lemma settle_transaction_Resolved: "settle_transaction fin = Resolved () \<longleftrightarrow> fin = Complete"
  by (cases fin) auto

lemma run_transaction_nil: "snd (run_transaction f [] s) = s"
  using run_transaction_atomic [of f "[]" s] by (auto simp: apply_requests_def)

lemma importData_resolved:
  assumes "importData JSON_parse eng jsonString d = (Resolved (), d')"
    and "JSON_parse jsonString = Some v" and "iterate v = Some vs"
  shows "d' = d\<lparr>entries := upsert_all vs (entries d)\<rparr>"
proof -
  have op: "open_error eng = None"
  proof (cases "open_error eng")
    case (Some e)
    with assms(1) show ?thesis by (simp add: importData_open_failure)
  qed simp
  obtain reqs thrown where pl: "put_loop vs = (reqs, thrown)"
    by (cases "put_loop vs")
  obtain fin s where tx: "run_transaction (write_fault eng) reqs (entries d) = (fin, s)"
    by (cases "run_transaction (write_fault eng) reqs (entries d)")
  have r: "importData JSON_parse eng jsonString d =
        ((case thrown of Some e \<Rightarrow> Rejected InvalidFormat | None \<Rightarrow> settle_transaction fin),
         d\<lparr>entries := s\<rparr>)"
    using importData_items [where JSON_parse = JSON_parse and jsonString = jsonString
        and v = v and vs = vs and eng = eng and d = d] assms(2,3) op pl tx
    by simp
  with assms(1) have th: "thrown = None" and fin: "fin = Complete" and d': "d' = d\<lparr>entries := s\<rparr>"
    by (auto simp: settle_transaction_Resolved split: option.splits)
  from th pl have valid: "list_all has_key vs"
    using put_loop_no_throw [of vs] by simp
  then have "reqs = requests_of vs"
    using pl by (simp add: put_loop_all_valid)
  with tx fin run_transaction_atomic [of "write_fault eng" reqs "entries d"] valid
  have "s = upsert_all vs (entries d)"
    by (simp add: apply_requests_of)
  with d' show ?thesis by simp
qed

lemma mset_apply_requests_fresh:
  "distinct (map fst reqs) \<Longrightarrow> fst ` set reqs \<inter> fst ` set w = {}
   \<Longrightarrow> mset (apply_requests reqs w) = mset w + mset reqs"
proof (induction reqs arbitrary: w)
  case Nil
  then show ?case by (simp add: apply_requests_def)
next
  case (Cons r reqs)
  have absent: "fst r \<notin> fst ` set w"
    using Cons.prems(2) by auto
  then have put: "put_record (fst r) (snd r) w = insert_record (fst r) (snd r) w"
    by (simp add: put_record_def remove_record_absent)
  have "fst ` set reqs \<inter> fst ` set (insert_record (fst r) (snd r) w) = {}"
    using Cons.prems by (auto simp: set_insert_record)
  with Cons.IH [of "insert_record (fst r) (snd r) w"] Cons.prems(1)
  have "mset (apply_requests reqs (insert_record (fst r) (snd r) w))
        = mset (insert_record (fst r) (snd r) w) + mset reqs"
    by simp
  then show ?case
    by (simp add: apply_requests_def put mset_insert_record)
qed

lemma map_snd_requests_of: "map snd (requests_of vs) = vs"
  by (simp add: requests_of_def comp_def)

lemma has_key_stored:
  "wf_store ''id'' s \<Longrightarrow> list_all has_key (getAll s)"
  by (auto simp: wf_store_def list_all_iff getAll_def has_key_def)

lemma keys_of_stored:
  assumes "wf_store ''id'' s"
  shows "map (\<lambda>v. the (extract_key ''id'' v)) (getAll s) = map fst s"
  using assms by (auto simp: wf_store_def list_all_iff getAll_def)

lemma distinct_requests_of_sorted:
  assumes "wf_store ''id'' s"
  shows "distinct (map fst (requests_of (js_sort c (getAll s))))"
proof -
  let ?key = "\<lambda>v. the (extract_key ''id'' v)"
  have "mset (map ?key (js_sort c (getAll s))) = mset (map ?key (getAll s))"
    by (simp add: mset_js_sort)
  also have "\<dots> = mset (map fst s)"
    by (simp only: keys_of_stored [OF assms])
  finally have "mset (map ?key (js_sort c (getAll s))) = mset (map fst s)" .
  moreover have "distinct (map fst s)"
    using assms by (simp add: wf_store_def)
  ultimately have "distinct (map ?key (js_sort c (getAll s)))"
    by (metis mset_eq_imp_distinct_iff)
  then show ?thesis
    by (simp add: requests_of_def comp_def)
qed

subsection \<open>The invariant under the writers of the entry store\<close>

lemma put_loop_wf:
  "list_all (\<lambda>r. extract_key ''id'' (snd r) = Some (fst r)) (fst (put_loop vs))"
  by (induction vs) (auto simp: store_put_def split: option.splits prod.splits)

lemma wf_store_importData:
  assumes "wf_store ''id'' (entries d)"
  shows "wf_store ''id'' (entries (snd (importData JSON_parse eng jsonString d)))"
proof -
  have tx: "wf_store ''id'' s"
    if "put_loop vs = (reqs, thrown)" and "run_transaction f reqs (entries d) = (fin, s)"
    for f vs reqs thrown fin s
    using wf_store_run_transaction [OF assms, of reqs f] put_loop_wf [of vs] that
    by simp
  show ?thesis
    using assms
    by (auto simp: importData_def import_try_def split: option.splits sum.splits prod.splits
        dest: tx)
qed

subsection \<open>The reference codec decodes what it encodes\<close>

lemma of_char_digit_char: "d < 10 \<Longrightarrow> (of_char (digit_char d) :: nat) = 48 + d"
  by (simp add: digit_char_def)

lemma is_digit_digit_char: "d < 10 \<Longrightarrow> is_digit (digit_char d)"
  by (simp add: is_digit_def of_char_digit_char)

lemma digit_val_digit_char: "d < 10 \<Longrightarrow> digit_val (digit_char d) = d"
  by (simp add: digit_val_def of_char_digit_char)

lemma read_digits_show_nat:
  "read_digits acc (show_nat n @ rest) = read_digits (acc * 10 ^ length (show_nat n) + n) rest"
proof (induction n arbitrary: acc rest rule: show_nat.induct)
  case (1 n)
  show ?case
  proof (cases "n < 10")
    case True
    then show ?thesis
      by (simp add: show_nat.simps [of n] is_digit_digit_char digit_val_digit_char mult.commute)
  next
    case False
    have d: "n mod 10 < 10" by simp
    have sn: "show_nat n = show_nat (n div 10) @ [digit_char (n mod 10)]"
      using False by (simp add: show_nat.simps [of n])
    have "read_digits acc (show_nat n @ rest)
          = read_digits acc (show_nat (n div 10) @ digit_char (n mod 10) # rest)"
      by (simp add: sn)
    also have "\<dots> = read_digits (acc * 10 ^ length (show_nat (n div 10)) + n div 10)
                        (digit_char (n mod 10) # rest)"
      using "1.IH" [OF False] by simp
    also have "\<dots> = read_digits (10 * (acc * 10 ^ length (show_nat (n div 10)) + n div 10) + n mod 10) rest"
      by (simp add: is_digit_digit_char [OF d] digit_val_digit_char [OF d])
    also have "10 * (acc * 10 ^ length (show_nat (n div 10)) + n div 10) + n mod 10
               = acc * 10 ^ length (show_nat n) + n"
      by (simp add: sn algebra_simps)
    finally show ?thesis .
  qed
qed

lemma read_digits_end: "ends_value rest \<Longrightarrow> read_digits n rest = (n, rest)"
  by (cases rest) (auto simp: ends_value_def is_digit_def)

lemma ends_value_no_fraction: "ends_value rest \<Longrightarrow> \<not> starts_fraction rest"
  by (cases rest) (auto simp: ends_value_def starts_fraction_def)

lemma show_nat_head:
  "\<exists>c r. show_nat n = c # r \<and> is_digit c \<and> (c = CHR ''0'' \<longrightarrow> n = 0 \<and> r = [])"
proof (induction n rule: show_nat.induct)
  case (1 n)
  show ?case
  proof (cases "n < 10")
    case True
    have "n = 0" if "digit_char n = CHR ''0''"
    proof -
      from that have "(of_char (digit_char n) :: nat) = of_char (CHR ''0'')" by simp
      with True show ?thesis by (simp add: of_char_digit_char)
    qed
    moreover have "digit_char 0 = CHR ''0''"
      by code_simp
    ultimately have "(digit_char n = CHR ''0'') = (n = 0)"
      by auto
    with True show ?thesis
      by (simp add: show_nat.simps [of n] is_digit_digit_char)
  next
    case False
    then have pos: "n div 10 \<noteq> 0" by simp
    from "1.IH" [OF False] obtain c r where "show_nat (n div 10) = c # r" "is_digit c"
      "c = CHR ''0'' \<longrightarrow> n div 10 = 0 \<and> r = []"
      by blast
    with False pos show ?thesis
      by (simp add: show_nat.simps [of n])
  qed
qed


lemma parse_nat_show_nat:
  assumes "ends_value rest"
  shows "parse_nat (show_nat n @ rest) = Some (n, rest)"
proof -
  from show_nat_head [of n] obtain c r where sn: "show_nat n = c # r" and dig: "is_digit c"
    and zero: "c = CHR ''0'' \<longrightarrow> n = 0 \<and> r = []"
    by blast
  show ?thesis
  proof (cases "c = CHR ''0''")
    case True
    with zero sn assms dig show ?thesis
      by (simp add: parse_nat_def ends_value_no_fraction)
  next
    case False
    have "read_digits 0 (c # r @ rest) = (n, rest)"
      using read_digits_show_nat [of 0 n rest] read_digits_end [OF assms, of n]
      by (simp add: sn)
    with False show ?thesis
      using assms by (simp add: parse_nat_def sn dig ends_value_no_fraction)
  qed
qed

lemma is_digit_not_minus: "is_digit c \<Longrightarrow> c \<noteq> CHR ''-''"
  by (auto simp: is_digit_def)

lemma parse_number_show_int:
  assumes "ends_value rest"
  shows "parse_number (show_int i @ rest) = Some (JNum i, rest)"
proof (cases "i < 0")
  case True
  then show ?thesis
    by (simp add: parse_number_def show_int_def parse_nat_show_nat [OF assms])
next
  case False
  from show_nat_head [of "nat i"] obtain c r where sn: "show_nat (nat i) = c # r"
    and dig: "is_digit c"
    by blast
  have "parse_nat (c # r @ rest) = Some (nat i, rest)"
    using parse_nat_show_nat [OF assms, of "nat i"] by (simp add: sn)
  with False show ?thesis
    by (simp add: parse_number_def show_int_def sn is_digit_not_minus [OF dig])
qed

text \<open>Strings.\<close>

lemma hex_val_hex_digit: "k < 16 \<Longrightarrow> hex_val (hex_digit k) = Some k"
  by (auto simp: hex_val_def hex_digit_def Let_def)

lemma hex4_escape:
  assumes "(of_char c :: nat) < 32"
  shows "hex4 (CHR ''0'') (CHR ''0'') (hex_digit (of_char c div 16)) (hex_digit (of_char c mod 16))
         = Some (of_char c)"
proof -
  have "hex_val (CHR ''0'') = Some 0"
    by (simp add: hex_val_def)
  moreover have "hex_val (hex_digit (of_char c div 16)) = Some (of_char c div 16)"
    using assms by (intro hex_val_hex_digit) simp
  moreover have "hex_val (hex_digit (of_char c mod 16)) = Some (of_char c mod 16)"
    by (intro hex_val_hex_digit) simp
  ultimately show ?thesis
    by (simp add: hex4_def)
qed

lemma string_body_Nil: "string_body [] rest = CHR 0x22 # rest"
  by (simp add: string_body_def)

lemma string_body_Cons: "string_body (c # s) rest = escape_char c @ string_body s rest"
  by (simp add: string_body_def)

lemma string_body_nonempty: "\<exists>e cs. string_body s rest = e # cs"
  by (cases "string_body s rest") (auto simp: string_body_def)

lemma parse_chars_quote: "parse_chars (CHR 0x22 # rest) = Some ([], rest)"
  by (cases rest) auto

lemma parse_chars_body: "parse_chars (string_body s rest) = Some (s, rest)"
proof (induction s)
  case Nil
  then show ?case by (simp add: string_body_Nil parse_chars_quote)
next
  case (Cons c s)
  obtain e cs where tail: "string_body s rest = e # cs"
    using string_body_nonempty by blast
  have ih: "parse_chars (e # cs) = Some (s, rest)"
    using Cons.IH by (simp add: tail)
  consider (quote) "c = CHR 0x22" | (bslash) "c = CHR 0x5C" | (b) "c = CHR 0x08"
    | (f) "c = CHR 0x0C" | (n) "c = CHR 0x0A" | (r) "c = CHR 0x0D" | (t) "c = CHR 0x09"
    | (ctl) "c \<noteq> CHR 0x22" "c \<noteq> CHR 0x5C" "c \<noteq> CHR 0x08" "c \<noteq> CHR 0x0C" "c \<noteq> CHR 0x0A"
        "c \<noteq> CHR 0x0D" "c \<noteq> CHR 0x09" "(of_char c :: nat) < 32"
    | (plain) "c \<noteq> CHR 0x22" "c \<noteq> CHR 0x5C" "\<not> (of_char c :: nat) < 32"
    by (cases "(of_char c :: nat) < 32") auto
  then show ?case
  proof cases
    case quote
    then show ?thesis
      by (simp add: string_body_Cons escape_char_def tail ih unescape_def cons_char_def)
  next
    case bslash
    then show ?thesis
      by (simp add: string_body_Cons escape_char_def tail ih unescape_def cons_char_def)
  next
    case b
    then show ?thesis
      by (simp add: string_body_Cons escape_char_def tail ih unescape_def cons_char_def)
  next
    case f
    then show ?thesis
      by (simp add: string_body_Cons escape_char_def tail ih unescape_def cons_char_def)
  next
    case n
    then show ?thesis
      by (simp add: string_body_Cons escape_char_def tail ih unescape_def cons_char_def)
  next
    case r
    then show ?thesis
      by (simp add: string_body_Cons escape_char_def tail ih unescape_def cons_char_def)
  next
    case t
    then show ?thesis
      by (simp add: string_body_Cons escape_char_def tail ih unescape_def cons_char_def)
  next
    case ctl
    have "escape_char c = [CHR 0x5C, CHR ''u'', CHR ''0'', CHR ''0'',
         hex_digit (of_char c div 16), hex_digit (of_char c mod 16)]"
      using ctl by (simp add: escape_char_def)
    then show ?thesis
      using ctl(8) by (simp add: string_body_Cons tail ih hex4_escape cons_char_def)
  next
    case plain
    then have "escape_char c = [c]"
      by (auto simp: escape_char_def)
    then show ?thesis
      using plain by (simp add: string_body_Cons tail ih cons_char_def)
  qed
qed

lemma quote_body: "quote s @ rest = CHR 0x22 # string_body s rest"
  by (simp add: quote_def string_body_def)


text \<open>Values.\<close>

lemma starts_value_not_ws: "starts_value c \<Longrightarrow> \<not> is_ws c"
  by (auto simp: starts_value_def is_ws_def is_digit_def)

lemma starts_value_not_close: "starts_value c \<Longrightarrow> c \<noteq> CHR '']'' \<and> c \<noteq> CHR ''}''"
  by (auto simp: starts_value_def is_digit_def)

lemma json_stringify_head: "\<exists>c r. json_stringify v = c # r \<and> starts_value c"
proof (cases v)
  case (JNum i)
  show ?thesis
  proof (cases "i < 0")
    case True
    then show ?thesis by (simp add: JNum show_int_def starts_value_def)
  next
    case False
    from show_nat_head [of "nat i"] obtain c r where "show_nat (nat i) = c # r" "is_digit c"
      by blast
    with False show ?thesis by (simp add: JNum show_int_def starts_value_def)
  qed
qed (auto simp: starts_value_def quote_def)

lemma skip_ws_value: "skip_ws (json_stringify v @ rest) = json_stringify v @ rest"
proof -
  from json_stringify_head [of v] obtain c r where "json_stringify v = c # r" "starts_value c"
    by blast
  then show ?thesis by (simp add: starts_value_not_ws)
qed

lemma skip_ws_end: "ends_value (c # rest) \<Longrightarrow> skip_ws (c # rest) = c # rest"
  by (auto simp: ends_value_def is_ws_def)

lemma parse_elements_commas:
  assumes "xs \<noteq> []"
    and "\<And>x n rest. x \<in> set xs \<Longrightarrow> length (json_stringify x) \<le> n \<Longrightarrow> ends_value rest
           \<Longrightarrow> parse_value n (json_stringify x @ rest) = Some (x, rest)"
    and "length (commas (map json_stringify xs)) < n"
  shows "parse_elements n acc (commas (map json_stringify xs) @ CHR '']'' # rest)
         = Some (JArr (acc @ xs), rest)"
  using assms
proof (induction xs arbitrary: n acc)
  case Nil
  then show ?case by simp
next
  case (Cons x xs)
  from Cons.prems(3) obtain m where n: "n = Suc m"
    by (cases n) auto
  show ?case
  proof (cases xs)
    case Nil
    have "length (json_stringify x) \<le> m"
      using Cons.prems(3) by (simp add: n Nil)
    then have "parse_value m (json_stringify x @ CHR '']'' # rest) = Some (x, CHR '']'' # rest)"
      by (intro Cons.prems(2)) (simp_all add: ends_value_def)
    then show ?thesis
      by (simp add: n Nil is_ws_def)
  next
    case (Cons y ys)
    let ?tail = "commas (map json_stringify (y # ys)) @ CHR '']'' # rest"
    have len: "length (json_stringify x) \<le> m" "length (commas (map json_stringify (y # ys))) < m"
      using Cons.prems(3) by (simp_all add: n Cons)
    have "parse_value m (json_stringify x @ CHR '','' # ?tail) = Some (x, CHR '','' # ?tail)"
      using len(1) by (intro Cons.prems(2)) (simp_all add: ends_value_def)
    moreover have "parse_elements m (acc @ [x]) ?tail = Some (JArr ((acc @ [x]) @ y # ys), rest)"
      unfolding Cons [symmetric]
      using Cons.prems(2) len(2)
      by (intro Cons.IH) (simp_all add: Cons)
    ultimately show ?thesis
      by (simp add: n Cons is_ws_def)
  qed
qed

lemma obj_set_fresh: "name \<notin> fst ` set acc \<Longrightarrow> obj_set name v acc = acc @ [(name, v)]"
  by (induction acc) auto

lemma parse_member:
  assumes "length (json_stringify v) \<le> m" and "ends_value (c # rest)"
    and "\<And>n rest. length (json_stringify v) \<le> n \<Longrightarrow> ends_value rest
           \<Longrightarrow> parse_value n (json_stringify v @ rest) = Some (v, rest)"
  shows "parse_members (Suc m) acc (member_text (name, v) @ c # rest) =
           (if c = CHR '','' then parse_members m (obj_set name v acc) rest
            else if c = CHR ''}'' then Some (JObj (obj_set name v acc), rest)
            else None)"
proof -
  have shape: "member_text (name, v) @ c # rest
        = CHR 0x22 # string_body name (CHR '':'' # json_stringify v @ c # rest)"
    by (simp add: member_text_def quote_def string_body_def)
  have "parse_value m (json_stringify v @ c # rest) = Some (v, c # rest)"
    using assms by blast
  moreover have "skip_ws (CHR 0x22 # x) = CHR 0x22 # x" and "skip_ws (CHR '':'' # x) = CHR '':'' # x" for x
    by (simp_all add: is_ws_def)
  ultimately show ?thesis
    by (simp add: shape parse_chars_body skip_ws_end [OF assms(2)] del: skip_ws.simps)
qed

lemma length_member_text: "length (json_stringify v) \<le> length (member_text (name, v))"
  by (simp add: member_text_def)

lemma parse_members_commas:
  assumes "fs \<noteq> []"
    and "\<And>p n rest. p \<in> set fs \<Longrightarrow> length (json_stringify (snd p)) \<le> n \<Longrightarrow> ends_value rest
           \<Longrightarrow> parse_value n (json_stringify (snd p) @ rest) = Some (snd p, rest)"
    and "length (commas (map member_text fs)) < n"
    and "distinct (map fst (acc @ fs))"
  shows "parse_members n acc (commas (map member_text fs) @ CHR ''}'' # rest)
         = Some (JObj (acc @ fs), rest)"
  using assms
proof (induction fs arbitrary: n acc)
  case Nil
  then show ?case by simp
next
  case (Cons p fs)
  obtain name v where p: "p = (name, v)"
    by (cases p)
  from Cons.prems(3) obtain m where n: "n = Suc m"
    by (cases n) auto
  have fresh: "obj_set name v acc = acc @ [(name, v)]"
    using Cons.prems(4) by (intro obj_set_fresh) (auto simp: p)
  have val: "\<And>n rest. length (json_stringify v) \<le> n \<Longrightarrow> ends_value rest
           \<Longrightarrow> parse_value n (json_stringify v @ rest) = Some (v, rest)"
    using Cons.prems(2) [of p] by (simp add: p)
  show ?case
  proof (cases fs)
    case Nil
    have "length (json_stringify v) \<le> m"
      using Cons.prems(3) length_member_text [of v name] by (simp add: n Nil p)
    then show ?thesis
      using parse_member [of v m "CHR ''}''" rest acc name] val
      by (simp add: n Nil p fresh ends_value_def)
  next
    case (Cons q qs)
    let ?tail = "commas (map member_text (q # qs)) @ CHR ''}'' # rest"
    have len: "length (json_stringify v) \<le> m" "length (commas (map member_text (q # qs))) < m"
      using Cons.prems(3) length_member_text [of v name] by (simp_all add: n Cons p)
    have "parse_members m (acc @ [(name, v)]) ?tail = Some (JObj ((acc @ [(name, v)]) @ q # qs), rest)"
      unfolding Cons [symmetric]
      using Cons.prems(2,4) len(2)
      by (intro Cons.IH) (simp_all add: Cons p)
    then show ?thesis
      using parse_member [of v m "CHR '',''" ?tail acc name] val len(1)
      by (simp add: n Cons p fresh ends_value_def)
  qed
qed


lemma head_not_close:
  "xs \<noteq> [] \<Longrightarrow> \<exists>c r. commas (map json_stringify xs) @ rest = c # r \<and> \<not> is_ws c \<and> c \<noteq> CHR '']''"
proof (cases xs)
  case (Cons x ys)
  from json_stringify_head [of x] obtain c r where "json_stringify x = c # r" "starts_value c"
    by blast
  then show ?thesis
    using starts_value_not_ws [of c] starts_value_not_close [of c]
    by (cases ys) (simp_all add: Cons)
qed simp

lemma member_head_not_close:
  "fs \<noteq> [] \<Longrightarrow> \<exists>r. commas (map member_text fs) @ rest = CHR 0x22 # r"
proof (cases fs)
  case (Cons p ps)
  then show ?thesis
    by (cases ps) (simp_all add: member_text_def quote_def)
qed simp

lemma json_stringify_obj: "json_stringify (JObj fs) = CHR ''{'' # commas (map member_text fs) @ ''}''"
proof -
  have "(\<lambda>(n, v). quote n @ CHR '':'' # json_stringify v) = member_text"
    by (auto simp: member_text_def fun_eq_iff)
  then show ?thesis by simp
qed

lemma parse_value_stringify:
  "distinct_names v \<Longrightarrow> length (json_stringify v) \<le> n \<Longrightarrow> ends_value rest
   \<Longrightarrow> parse_value n (json_stringify v @ rest) = Some (v, rest)"
proof (induction v arbitrary: n rest)
  case JNull
  then obtain m where "n = Suc m" by (cases n) auto
  then show ?case by (simp add: is_ws_def literal_def)
next
  case (JBool b)
  then obtain m where "n = Suc m" by (cases n; cases b) auto
  then show ?case by (cases b) (simp_all add: is_ws_def literal_def)
next
  case (JNum i)
  from json_stringify_head [of "JNum i"] obtain c r where sh: "show_int i = c # r"
    and st: "starts_value c"
    by auto
  have "c = CHR ''-'' \<or> is_digit c"
  proof (cases "i < 0")
    case True
    with sh show ?thesis by (simp add: show_int_def)
  next
    case False
    with sh show_nat_head [of "nat i"] show ?thesis by (auto simp: show_int_def)
  qed
  then have c: "\<not> is_ws c" "c \<noteq> CHR ''[''" "c \<noteq> CHR ''{''" "c \<noteq> CHR 0x22" "c \<noteq> CHR ''n''"
    "c \<noteq> CHR ''t''" "c \<noteq> CHR ''f''"
    by (auto simp: is_digit_def is_ws_def)
  from JNum.prems obtain m where n: "n = Suc m" by (cases n) (auto simp: sh)
  have "parse_number (c # r @ rest) = Some (JNum i, rest)"
    using parse_number_show_int [OF JNum.prems(3), of i] by (simp add: sh)
  then show ?case
    using c by (simp add: n sh)
next
  case (JStr s)
  then obtain m where "n = Suc m" by (cases n) (auto simp: quote_def)
  then show ?case
    using quote_body [of s rest] by (simp add: is_ws_def parse_chars_body)
next
  case (JArr xs)
  from JArr.prems obtain m where n: "n = Suc m" by (cases n) auto
  show ?case
  proof (cases "xs = []")
    case True
    then show ?thesis by (simp add: n is_ws_def)
  next
    case False
    from head_not_close [OF False, of "CHR '']'' # rest"] obtain c r
      where h: "commas (map json_stringify xs) @ CHR '']'' # rest = c # r"
        and c: "\<not> is_ws c" "c \<noteq> CHR '']''"
      by blast
    have "parse_elements m [] (commas (map json_stringify xs) @ CHR '']'' # rest)
          = Some (JArr ([] @ xs), rest)"
    proof (rule parse_elements_commas [OF False])
      fix x k rest'
      assume "x \<in> set xs" "length (json_stringify x) \<le> k" "ends_value rest'"
      with JArr.IH [of x k rest'] JArr.prems(1)
      show "parse_value k (json_stringify x @ rest') = Some (x, rest')"
        by (simp add: list_all_iff)
    next
      show "length (commas (map json_stringify xs)) < m"
        using JArr.prems(2) by (simp add: n)
    qed
    then show ?thesis
      using c by (simp add: n h is_ws_def)
  qed
next
  case (JObj fs)
  from JObj.prems obtain m where n: "n = Suc m" by (cases n) auto
  show ?case
  proof (cases "fs = []")
    case True
    then show ?thesis by (simp add: n is_ws_def)
  next
    case False
    from member_head_not_close [OF False, of "CHR ''}'' # rest"] obtain r
      where h: "commas (map member_text fs) @ CHR ''}'' # rest = CHR 0x22 # r"
      by blast
    have "parse_members m [] (commas (map member_text fs) @ CHR ''}'' # rest)
          = Some (JObj ([] @ fs), rest)"
    proof (rule parse_members_commas [OF False])
      fix p k rest'
      assume "p \<in> set fs" "length (json_stringify (snd p)) \<le> k" "ends_value rest'"
      with JObj.IH [of p "snd p" k rest'] JObj.prems(1)
      show "parse_value k (json_stringify (snd p) @ rest') = Some (snd p, rest')"
        by (cases p) (auto simp: list_all_iff)
    next
      show "length (commas (map member_text fs)) < m"
        using JObj.prems(2) by (simp add: n json_stringify_obj del: json_stringify.simps)
    next
      show "distinct (map fst ([] @ fs))"
        using JObj.prems(1) by simp
    qed
    then show ?thesis
      by (simp add: n json_stringify_obj h is_ws_def del: json_stringify.simps)
  qed
qed

lemma json_round_trip: "distinct_names v \<Longrightarrow> json_parse (json_stringify v) = Some v"
  using parse_value_stringify [of v "Suc (length (json_stringify v))" "[]"]
  by (simp add: json_parse_def ends_value_def)

subsection \<open>Export, then import into the fresh database\<close>

text \<open>For any codec that decodes the encoding of the exported sequence to that sequence.\<close>

lemma round_trip_for_codec:
  assumes "wf_store ''id'' (entries d)"
    and "getAllEntries healthy d = (Resolved before, d)"
    and "JSON_parse (JSON_stringify (JArr before)) = Some (JArr before)"
  shows "\<exists>d2 after.
           exportData JSON_stringify healthy d = (Resolved (JSON_stringify (JArr before)), d)
         \<and> importData JSON_parse healthy (JSON_stringify (JArr before)) fresh_db = (Resolved (), d2)
         \<and> getAllEntries healthy d2 = (Resolved after, d2)
         \<and> mset after = mset before"
proof -
  let ?s = "entries d"
  have before: "before = js_sort by_date_desc (getAll ?s)"
    using assms(2) by (simp add: getAllEntries_def openDB_def healthy_def)
  have valid: "list_all has_key before"
    using has_key_stored [OF assms(1)] by (simp add: before list_all_iff set_js_sort)
  have dist: "distinct (map fst (requests_of before))"
    unfolding before using assms(1) by (rule distinct_requests_of_sorted)
  let ?d2 = "fresh_db\<lparr>entries := upsert_all before (entries fresh_db)\<rparr>"
  let ?after = "js_sort by_date_desc (getAll (entries ?d2))"
  have ex: "exportData JSON_stringify healthy d = (Resolved (JSON_stringify (JArr before)), d)"
    using assms(2) by (simp add: exportData_def)
  have "open_error healthy = None" and "write_fault healthy = NoFault"
    by (simp_all add: healthy_def)
  then have im: "importData JSON_parse healthy (JSON_stringify (JArr before)) fresh_db
             = (Resolved (), ?d2)"
    using importData_all_valid [where JSON_parse = JSON_parse
        and jsonString = "JSON_stringify (JArr before)" and v = "JArr before" and vs = before
        and eng = healthy and d = fresh_db] assms(3) valid
    by (simp add: run_transaction_NoFault apply_requests_of)
  have li: "getAllEntries healthy ?d2 = (Resolved ?after, ?d2)"
    by (simp add: getAllEntries_def openDB_def healthy_def)
  have "mset (apply_requests (requests_of before) []) = mset (requests_of before)"
    using mset_apply_requests_fresh [OF dist, of "[]"] by simp
  then have "mset (upsert_all before []) = mset (requests_of before)"
    using valid by (simp add: apply_requests_of)
  then have "mset (map snd (upsert_all before [])) = mset (map snd (requests_of before))"
    by (metis mset_map)
  then have "mset ?after = mset before"
    by (simp add: mset_js_sort getAll_def fresh_db_def map_snd_requests_of)
  with ex im li show ?thesis by blast
qed

lemma distinct_names_strings: "list_all distinct_names (map JStr ss)"
  by (simp add: list_all_iff)

lemma distinct_names_entry: "distinct_names (entry_to_js e)"
  by (cases "audio e"; cases "drawing e"; cases "location e")
     (simp_all add: entry_to_js_def distinct_names_strings)

lemma distinct_names_put_record:
  "distinct_names v \<Longrightarrow> list_all distinct_names (getAll s)
   \<Longrightarrow> list_all distinct_names (getAll (put_record k v s))"
  by (auto simp: getAll_def list_all_iff set_put_record)

lemma distinct_names_saveEntry:
  "list_all distinct_names (getAll (entries d))
   \<Longrightarrow> list_all distinct_names (getAll (entries (snd (saveEntry eng e d))))"
  using entries_saveEntry [of eng e d]
  by (auto simp: distinct_names_put_record distinct_names_entry)

lemma distinct_names_save_all:
  "list_all distinct_names (getAll (entries d))
   \<Longrightarrow> list_all distinct_names (getAll (entries (save_all calls d)))"
  by (induction calls d rule: save_all.induct) (auto simp: distinct_names_saveEntry)

text \<open>Every store that \<open>saveEntry\<close> builds from the fresh database is such a store.\<close>

lemma saved_entries_invariants:
  "wf_store ''id'' (entries (save_all calls fresh_db))
   \<and> list_all distinct_names (getAll (entries (save_all calls fresh_db)))"
proof
  show "wf_store ''id'' (entries (save_all calls fresh_db))"
    by (rule wf_store_save_all) (simp add: wf_store_def fresh_db_def)
  show "list_all distinct_names (getAll (entries (save_all calls fresh_db)))"
    by (rule distinct_names_save_all) (simp add: getAll_def fresh_db_def)
qed

section \<open>Settings\<close>

text \<open>
  C1. On an engine-level read error during a settings load, \<open>getSettings\<close> is to
  return the fixed default record. The code resolves with the empty object instead:
  with the database open and the \<open>get\<close> request failing, whatever the error and
  whatever the database, \<open>getSettings\<close> resolves with \<open>{}\<close>, which is not the default
  record (it has none of its fields).
\<close>

theorem getSettings_read_error_empty_object:
  "getSettings \<lparr>open_error = None, read_error = Some e, write_fault = f\<rparr> d = (Resolved (JObj []), d)
   \<and> JObj [] \<noteq> settings_to_js default_settings"
  by (simp add: getSettings_def openDB_def settings_to_js_def)

text \<open>
  C8. With the database open, the read succeeding and no record under \<open>appSettings\<close>,
  \<open>getSettings\<close> resolves with exactly the fixed default record and writes nothing: the
  database after the call is the database before it, so the settings store still holds
  no such record.
\<close>

theorem getSettings_absent_default:
  assumes "open_error eng = None" and "read_error eng = None"
    and "get_record (settings d) (KStr ''appSettings'') = None"
  shows "getSettings eng d =
           (Resolved (JObj [(''theme'', JStr ''light''), (''securityEnabled'', JBool False),
                            (''pin'', JNull), (''biometricsEnabled'', JBool False),
                            (''dailyReminder'', JBool False), (''reminderTime'', JStr ''20:00''),
                            (''viewMode'', JStr ''list'')]), d)
         \<and> get_record (settings (snd (getSettings eng d))) (KStr ''appSettings'') = None"
  using assms
  by (simp add: getSettings_def openDB_def settings_to_js_def default_settings_def)

theorem getSettings_absent_default_witness:
  "open_error healthy = None \<and> read_error healthy = None
   \<and> get_record (settings fresh_db) (KStr ''appSettings'') = None
   \<and> getSettings healthy fresh_db =
           (Resolved (JObj [(''theme'', JStr ''light''), (''securityEnabled'', JBool False),
                            (''pin'', JNull), (''biometricsEnabled'', JBool False),
                            (''dailyReminder'', JBool False), (''reminderTime'', JStr ''20:00''),
                            (''viewMode'', JStr ''list'')]), fresh_db)
   \<and> settings (snd (getSettings healthy fresh_db)) = []"
proof -
  have a: "open_error healthy = None" and b: "read_error healthy = None"
    by (simp_all add: healthy_def)
  have c: "get_record (settings fresh_db) (KStr ''appSettings'') = None"
    by (simp add: fresh_db_def get_record_def)
  show ?thesis
    using a b c getSettings_absent_default [OF a b c] by (simp add: fresh_db_def)
qed

text \<open>
  C10. The promise of \<open>getSettings\<close> can reject: \<open>await openDB()\<close> stands before the
  promise that has no \<open>reject\<close>, and a database that does not open rejects the returned
  promise with the error of the open request.
\<close>

theorem getSettings_open_failure_rejects:
  "fst (getSettings \<lparr>open_error = Some (EngineError ''UnknownError''), read_error = None,
                     write_fault = NoFault\<rparr> fresh_db)
   = Rejected (EngineError ''UnknownError'')"
  by (simp add: getSettings_def openDB_def)

text \<open>
  C10, amended. Once the database is open, the promise never rejects: for every outcome
  of the settings read (a record, no record, a read error) and every content of the
  stores, \<open>getSettings\<close> resolves with a value and leaves the database as it was. When
  the database cannot be opened, whatever the error of the open request, the read and
  the stores, the promise rejects with the error of the open request, and the database
  is as it was.
\<close>

theorem getSettings_resolves_once_open:
  "(open_error eng = None \<longrightarrow> (\<exists>v. getSettings eng d = (Resolved v, d)))
   \<and> (\<forall>e. open_error eng = Some e \<longrightarrow> getSettings eng d = (Rejected e, d))"
  by (simp add: getSettings_def openDB_def split: option.splits)

theorem getSettings_resolves_once_open_witness:
  "open_error healthy = None
   \<and> open_error (healthy\<lparr>read_error := Some (EngineError ''UnknownError'')\<rparr>) = None
   \<and> (\<exists>v. getSettings healthy fresh_db = (Resolved v, fresh_db))
   \<and> (\<exists>v. getSettings healthy (snd (saveSettings healthy (default_settings\<lparr>theme := Dark\<rparr>) fresh_db))
          = (Resolved v, snd (saveSettings healthy (default_settings\<lparr>theme := Dark\<rparr>) fresh_db)))
   \<and> getSettings healthy (snd (saveSettings healthy (default_settings\<lparr>theme := Dark\<rparr>) fresh_db))
       = (Resolved (settings_to_js (default_settings\<lparr>theme := Dark\<rparr>)),
          snd (saveSettings healthy (default_settings\<lparr>theme := Dark\<rparr>) fresh_db))
   \<and> (\<exists>v. getSettings (healthy\<lparr>read_error := Some (EngineError ''UnknownError'')\<rparr>) fresh_db
          = (Resolved v, fresh_db))
   \<and> open_error (healthy\<lparr>open_error := Some (EngineError ''InvalidStateError'')\<rparr>)
       = Some (EngineError ''InvalidStateError'')
   \<and> getSettings (healthy\<lparr>open_error := Some (EngineError ''InvalidStateError'')\<rparr>) three_days
       = (Rejected (EngineError ''InvalidStateError''), three_days)
   \<and> getSettings (healthy\<lparr>open_error := Some (EngineError ''InvalidStateError''),
                            read_error := Some (EngineError ''UnknownError'')\<rparr>)
         (snd (saveSettings healthy (default_settings\<lparr>theme := Dark\<rparr>) fresh_db))
       = (Rejected (EngineError ''InvalidStateError''),
          snd (saveSettings healthy (default_settings\<lparr>theme := Dark\<rparr>) fresh_db))"
proof -
  have a: "open_error healthy = None"
    by (simp add: healthy_def)
  have b: "open_error (healthy\<lparr>read_error := Some (EngineError ''UnknownError'')\<rparr>) = None"
    by (simp add: healthy_def)
  have o1: "open_error (healthy\<lparr>open_error := Some (EngineError ''InvalidStateError'')\<rparr>)
            = Some (EngineError ''InvalidStateError'')"
    by simp
  have o2: "open_error (healthy\<lparr>open_error := Some (EngineError ''InvalidStateError''),
                                read_error := Some (EngineError ''UnknownError'')\<rparr>)
            = Some (EngineError ''InvalidStateError'')"
    by simp
  let ?saved = "snd (saveSettings healthy (default_settings\<lparr>theme := Dark\<rparr>) fresh_db)"
  have f: "fst (getSettings healthy ?saved)
           = Resolved (settings_to_js (default_settings\<lparr>theme := Dark\<rparr>))"
    by code_simp
  note resolves = getSettings_resolves_once_open [THEN conjunct1, rule_format]
  note rejects = getSettings_resolves_once_open [THEN conjunct2, rule_format]
  from resolves [OF a, of ?saved] f
  have c: "getSettings healthy ?saved
           = (Resolved (settings_to_js (default_settings\<lparr>theme := Dark\<rparr>)), ?saved)"
    by auto
  from a b o1 c resolves [OF a, of fresh_db] resolves [OF a, of ?saved]
    resolves [OF b, of fresh_db] rejects [OF o1, of three_days] rejects [OF o2, of ?saved]
  show ?thesis by blast
qed

section \<open>Entries\<close>

text \<open>
  C6. From a store that satisfies the invariant (the fresh database does), after any
  sequence of \<open>saveEntry\<close> calls, whatever the engine does during each, at most one
  record carries a given id. And when \<open>saveEntry\<close> is called twice with the same id, the
  second call meeting no fault, the one record under that id is the second entry in
  full: the object of the first call is gone, not merged.
\<close>

theorem saveEntry_one_record_per_id:
  assumes "wf_store ''id'' (entries d)"
  shows "length (filter (\<lambda>v. get_prop v ''id'' = Some (JStr i)) (getAll (entries (save_all calls d)))) \<le> 1
       \<and> (open_error eng2 = None \<and> write_fault eng2 = NoFault \<and> entry_id e1 = entry_id e2 \<longrightarrow>
            filter (\<lambda>v. get_prop v ''id'' = Some (JStr (entry_id e2)))
              (getAll (entries (snd (saveEntry eng2 e2 (snd (saveEntry eng1 e1 d))))))
            = [entry_to_js e2])"
proof
  have "wf_store ''id'' (entries (save_all calls d))"
    using assms by (rule wf_store_save_all)
  then show "length (filter (\<lambda>v. get_prop v ''id'' = Some (JStr i)) (getAll (entries (save_all calls d)))) \<le> 1"
    using length_filter_key_le1 [of "entries (save_all calls d)" "KStr i"]
    by (simp add: filter_by_id wf_store_def)
next
  show "open_error eng2 = None \<and> write_fault eng2 = NoFault \<and> entry_id e1 = entry_id e2 \<longrightarrow>
            filter (\<lambda>v. get_prop v ''id'' = Some (JStr (entry_id e2)))
              (getAll (entries (snd (saveEntry eng2 e2 (snd (saveEntry eng1 e1 d))))))
            = [entry_to_js e2]"
  proof (intro impI, elim conjE)
    assume ok: "open_error eng2 = None" "write_fault eng2 = NoFault"
    let ?d1 = "snd (saveEntry eng1 e1 d)"
    have wf1: "wf_store ''id'' (entries ?d1)"
      using assms by (rule wf_store_saveEntry)
    have wf2: "wf_store ''id'' (entries (snd (saveEntry eng2 e2 ?d1)))"
      using wf1 by (rule wf_store_saveEntry)
    have "entries (snd (saveEntry eng2 e2 ?d1))
          = put_record (KStr (entry_id e2)) (entry_to_js e2) (entries ?d1)"
      by (simp add: saveEntry_NoFault [OF ok])
    moreover have "distinct (map fst (entries ?d1))"
      using wf1 by (simp add: wf_store_def)
    ultimately show "filter (\<lambda>v. get_prop v ''id'' = Some (JStr (entry_id e2)))
              (getAll (entries (snd (saveEntry eng2 e2 ?d1)))) = [entry_to_js e2]"
      using wf2 by (simp add: filter_by_id filter_key_put_record)
  qed
qed

theorem saveEntry_one_record_per_id_witness:
  "wf_store ''id'' (entries fresh_db)
   \<and> length (filter (\<lambda>v. get_prop v ''id'' = Some (JStr ''a''))
         (getAll (entries (save_all
            [(healthy, sample_entry ''a'' 100 ''Day 1''),
             (healthy, sample_entry ''b'' 200 ''Day 2''),
             (healthy, (sample_entry ''a'' 100 ''Day 1, again'')\<lparr>isFavorite := True\<rparr>)]
            fresh_db)))) \<le> 1
   \<and> open_error healthy = None \<and> write_fault healthy = NoFault
   \<and> entry_id (sample_entry ''a'' 100 ''Day 1'')
       = entry_id ((sample_entry ''a'' 100 ''Day 1, again'')\<lparr>isFavorite := True\<rparr>)
   \<and> filter (\<lambda>v. get_prop v ''id'' = Some (JStr ''a''))
         (getAll (entries (snd (saveEntry healthy
             ((sample_entry ''a'' 100 ''Day 1, again'')\<lparr>isFavorite := True\<rparr>)
             (snd (saveEntry healthy (sample_entry ''a'' 100 ''Day 1'') fresh_db))))))
       = [entry_to_js ((sample_entry ''a'' 100 ''Day 1, again'')\<lparr>isFavorite := True\<rparr>)]"
proof -
  have wf: "wf_store ''id'' (entries fresh_db)"
    by (simp add: wf_store_def fresh_db_def)
  have ok: "open_error healthy = None" "write_fault healthy = NoFault"
    by (simp_all add: healthy_def)
  have same: "entry_id (sample_entry ''a'' 100 ''Day 1'')
       = entry_id ((sample_entry ''a'' 100 ''Day 1, again'')\<lparr>isFavorite := True\<rparr>)"
    by (simp add: sample_entry_def)
  note inst = saveEntry_one_record_per_id [OF wf, of "''a''"
      "[(healthy, sample_entry ''a'' 100 ''Day 1''),
        (healthy, sample_entry ''b'' 200 ''Day 2''),
        (healthy, (sample_entry ''a'' 100 ''Day 1, again'')\<lparr>isFavorite := True\<rparr>)]"
      healthy "sample_entry ''a'' 100 ''Day 1''"
      "(sample_entry ''a'' 100 ''Day 1, again'')\<lparr>isFavorite := True\<rparr>" healthy]
  from inst have one: "length (filter (\<lambda>v. get_prop v ''id'' = Some (JStr ''a''))
         (getAll (entries (save_all
            [(healthy, sample_entry ''a'' 100 ''Day 1''),
             (healthy, sample_entry ''b'' 200 ''Day 2''),
             (healthy, (sample_entry ''a'' 100 ''Day 1, again'')\<lparr>isFavorite := True\<rparr>)]
            fresh_db)))) \<le> 1"
    by (rule conjunct1)
  from inst ok same have two: "filter (\<lambda>v. get_prop v ''id'' = Some (JStr ''a''))
         (getAll (entries (snd (saveEntry healthy
             ((sample_entry ''a'' 100 ''Day 1, again'')\<lparr>isFavorite := True\<rparr>)
             (snd (saveEntry healthy (sample_entry ''a'' 100 ''Day 1'') fresh_db))))))
       = [entry_to_js ((sample_entry ''a'' 100 ''Day 1, again'')\<lparr>isFavorite := True\<rparr>)]"
    by (simp add: sample_entry_def)
  from wf one ok same two show ?thesis by blast
qed

text \<open>
  C7. With the database open and the read succeeding, on every store whose records have
  a numeric date, \<open>getAllEntries\<close> resolves with the records of the store, each once,
  ordered by date from the most recent to the oldest; and the empty store gives the
  empty list, not an error.
\<close>

theorem getAllEntries_newest_first:
  assumes "open_error eng = None" and "read_error eng = None"
    and "list_all (\<lambda>v. date_of v \<noteq> None) (getAll (entries d))"
  shows "\<exists>ys. getAllEntries eng d = (Resolved ys, d)
              \<and> sorted_wrt not_older ys
              \<and> mset ys = mset (getAll (entries d))
              \<and> (entries d = [] \<longrightarrow> ys = [])"
proof -
  let ?ys = "js_sort by_date_desc (getAll (entries d))"
  have "getAllEntries eng d = (Resolved ?ys, d)"
    using assms(1,2) by (simp add: getAllEntries_def openDB_def)
  moreover have "sorted_wrt not_older ?ys"
    using assms(3) by (rule sorted_js_sort)
  moreover have "mset ?ys = mset (getAll (entries d))"
    by (rule mset_js_sort)
  moreover have "entries d = [] \<longrightarrow> ?ys = []"
    by (simp add: getAll_def js_sort_def)
  ultimately show ?thesis by blast
qed

theorem getAllEntries_newest_first_witness:
  "open_error healthy = None \<and> read_error healthy = None
   \<and> list_all (\<lambda>v. date_of v \<noteq> None) (getAll (entries three_days))
   \<and> map date_of (getAll (entries three_days)) = [Some 100, Some 300, Some 200]
   \<and> (\<exists>ys. getAllEntries healthy three_days = (Resolved ys, three_days)
            \<and> sorted_wrt not_older ys \<and> map date_of ys = [Some 300, Some 200, Some 100])
   \<and> getAllEntries healthy fresh_db = (Resolved [], fresh_db)"
proof -
  have a: "open_error healthy = None" and b: "read_error healthy = None"
    by (simp_all add: healthy_def)
  have c: "list_all (\<lambda>v. date_of v \<noteq> None) (getAll (entries three_days))"
    by code_simp
  have c': "list_all (\<lambda>v. date_of v \<noteq> None) (getAll (entries fresh_db))"
    by (simp add: fresh_db_def getAll_def)
  have d: "map date_of (getAll (entries three_days)) = [Some 100, Some 300, Some 200]"
    by code_simp
  have e: "map date_of (js_sort by_date_desc (getAll (entries three_days)))
           = [Some 300, Some 200, Some 100]"
    by code_simp
  have f: "getAllEntries healthy three_days
           = (Resolved (js_sort by_date_desc (getAll (entries three_days))), three_days)"
    by (simp add: getAllEntries_def openDB_def healthy_def)
  from getAllEntries_newest_first [OF a b c] f e
  have g: "\<exists>ys. getAllEntries healthy three_days = (Resolved ys, three_days)
            \<and> sorted_wrt not_older ys \<and> map date_of ys = [Some 300, Some 200, Some 100]"
    by auto
  from getAllEntries_newest_first [OF a b c']
  have h: "getAllEntries healthy fresh_db = (Resolved [], fresh_db)"
    by (auto simp: fresh_db_def)
  from a b c d g h show ?thesis by blast
qed

section \<open>Snapshots\<close>

text \<open>
  C2. A text whose decoded records lack the shape of an entry is not rejected: nothing
  in \<open>importData\<close> looks at the records beyond what \<open>put\<close> needs. The text
  \<open>[{"id":7}]\<close> decodes to one object with a numeric id and no other field; the import
  resolves and the object is in the store.
\<close>

theorem importData_accepts_unshaped_record:
  \<open>importData json_parse healthy ''[{"id":7}]'' fresh_db
   = (Resolved (), \<lparr>entries = [(KNum 7, JObj [(''id'', JNum 7)])], settings = []\<rparr>)\<close>
  by code_simp

text \<open>
  C2, amended. \<open>importData\<close> fails with \<open>InvalidFormat\<close> and leaves the database as it
  was, whatever the engine does, for every text that is not well-formed, that decodes
  to a value that cannot be iterated (\<open>null\<close>, a boolean, a number, an object), or that
  decodes to a sequence whose first element carries no key under \<open>id\<close> (the characters
  of a non-empty string are such elements).
\<close>

theorem importData_rejects_unreadable:
  assumes "JSON_parse jsonString = None
         \<or> (\<exists>v. JSON_parse jsonString = Some v \<and> iterate v = None)
         \<or> (\<exists>v x xs. JSON_parse jsonString = Some v \<and> iterate v = Some (x # xs) \<and> \<not> has_key x)"
  shows "importData JSON_parse eng jsonString d = (Rejected InvalidFormat, d)"
  using assms
proof (elim disjE exE conjE)
  assume "JSON_parse jsonString = None"
  then show ?thesis by (rule importData_syntax_error)
next
  fix v assume "JSON_parse jsonString = Some v" "iterate v = None"
  then show ?thesis by (rule importData_not_iterable)
next
  fix v x xs
  assume p: "JSON_parse jsonString = Some v" and i: "iterate v = Some (x # xs)" and k: "\<not> has_key x"
  show ?thesis
  proof (cases "open_error eng")
    case (Some e)
    then show ?thesis by (rule importData_open_failure)
  next
    case None
    have "importData JSON_parse eng jsonString d =
            (Rejected InvalidFormat,
             d\<lparr>entries := snd (run_transaction (write_fault eng) (requests_of []) (entries d))\<rparr>)"
      using importData_first_invalid [where JSON_parse = JSON_parse and jsonString = jsonString
          and v = v and pre = "[]" and bad = x and post = xs and eng = eng and d = d] p i k None
      by simp
    then show ?thesis
      by (simp add: requests_of_def run_transaction_nil)
  qed
qed

theorem importData_rejects_unreadable_witness:
  \<open>json_parse ''not json'' = None
   \<and> importData json_parse healthy ''not json'' three_days = (Rejected InvalidFormat, three_days)
   \<and> json_parse ''{}'' = Some (JObj []) \<and> iterate (JObj []) = None
   \<and> importData json_parse healthy ''{}'' three_days = (Rejected InvalidFormat, three_days)
   \<and> json_parse ''[{"date":2},{"id":"z"}]''
       = Some (JArr [JObj [(''date'', JNum 2)], JObj [(''id'', JStr ''z'')]])
   \<and> \<not> has_key (JObj [(''date'', JNum 2)])
   \<and> importData json_parse healthy ''[{"date":2},{"id":"z"}]'' three_days
       = (Rejected InvalidFormat, three_days)\<close>
proof -
  have p1: \<open>json_parse ''not json'' = None\<close>
    by code_simp
  have p2: \<open>json_parse ''{}'' = Some (JObj [])\<close>
    by code_simp
  have i2: \<open>iterate (JObj []) = None\<close>
    by simp
  have p3: \<open>json_parse ''[{"date":2},{"id":"z"}]''
            = Some (JArr [JObj [(''date'', JNum 2)], JObj [(''id'', JStr ''z'')]])\<close>
    by code_simp
  have k3: \<open>\<not> has_key (JObj [(''date'', JNum 2)])\<close>
    by (simp add: has_key_def extract_key_def)
  have r1: \<open>importData json_parse healthy ''not json'' three_days = (Rejected InvalidFormat, three_days)\<close>
    using importData_rejects_unreadable [of json_parse \<open>''not json''\<close> healthy three_days] p1
    by simp
  have r2: \<open>importData json_parse healthy ''{}'' three_days = (Rejected InvalidFormat, three_days)\<close>
    using importData_rejects_unreadable [of json_parse \<open>''{}''\<close> healthy three_days] p2 i2
    by simp
  have r3: \<open>importData json_parse healthy ''[{"date":2},{"id":"z"}]'' three_days
            = (Rejected InvalidFormat, three_days)\<close>
    using importData_rejects_unreadable [of json_parse \<open>''[{"date":2},{"id":"z"}]''\<close> healthy three_days]
      p3 k3
    by simp
  from p1 r1 p2 i2 r2 p3 k3 r3 show ?thesis by blast
qed

text \<open>
  C3. A record without \<open>date\<close> does not fail the import: \<open>date\<close> is the key path of an
  index, and a record without it is stored and left out of the index. The text
  \<open>[{"id":"a","title":"Day 1"}]\<close> is imported.
\<close>

theorem importData_accepts_record_without_date:
  \<open>importData json_parse healthy ''[{"id":"a","title":"Day 1"}]'' fresh_db
   = (Resolved (),
      \<lparr>entries = [(KStr ''a'', JObj [(''id'', JStr ''a''), (''title'', JStr ''Day 1'')])],
       settings = []\<rparr>)\<close>
  by code_simp

text \<open>
  C3, amended. When the decoded sequence contains a record that carries no key under
  \<open>id\<close> (the field is missing, or is not a number, a string or an array of keys), the
  import fails with \<open>InvalidFormat\<close>, and neither the first such record nor any record
  after it reaches the store: the store is as before, or as after the records that
  precede it. When every record carries a key under \<open>id\<close>, whatever else it lacks
  (\<open>date\<close>, \<open>audio\<close>, \<open>drawing\<close>, \<open>location\<close> or any other field), and the engine meets
  no fault, the import resolves with every record stored.
\<close>

theorem importData_missing_id:
  assumes "JSON_parse jsonString = Some (JArr vs)"
  shows "(\<forall>pre bad post. vs = pre @ bad # post \<and> list_all has_key pre \<and> \<not> has_key bad \<longrightarrow>
            fst (importData JSON_parse eng jsonString d) = Rejected InvalidFormat
            \<and> (entries (snd (importData JSON_parse eng jsonString d)) = entries d
               \<or> entries (snd (importData JSON_parse eng jsonString d)) = upsert_all pre (entries d)))
       \<and> (list_all has_key vs \<and> open_error eng = None \<and> write_fault eng = NoFault \<longrightarrow>
            importData JSON_parse eng jsonString d
              = (Resolved (), d\<lparr>entries := upsert_all vs (entries d)\<rparr>))"
proof (rule conjI)
  have first: "fst (importData JSON_parse eng jsonString d) = Rejected InvalidFormat
        \<and> (entries (snd (importData JSON_parse eng jsonString d)) = entries d
           \<or> entries (snd (importData JSON_parse eng jsonString d)) = upsert_all pre (entries d))"
    if vs: "vs = pre @ bad # post" and pre: "list_all has_key pre" and bad: "\<not> has_key bad"
    for pre bad post
  proof (cases "open_error eng")
    case (Some e)
    then show ?thesis by (simp add: importData_open_failure)
  next
    case None
    have "importData JSON_parse eng jsonString d =
            (Rejected InvalidFormat,
             d\<lparr>entries := snd (run_transaction (write_fault eng) (requests_of pre) (entries d))\<rparr>)"
      using importData_first_invalid [where JSON_parse = JSON_parse and jsonString = jsonString
          and v = "JArr vs" and pre = pre and bad = bad and post = post and eng = eng and d = d]
        assms vs pre bad None
      by simp
    then show ?thesis
      using run_transaction_atomic [of "write_fault eng" "requests_of pre" "entries d"] pre
      by (auto simp: apply_requests_of)
  qed
  then show "\<forall>pre bad post. vs = pre @ bad # post \<and> list_all has_key pre \<and> \<not> has_key bad \<longrightarrow>
            fst (importData JSON_parse eng jsonString d) = Rejected InvalidFormat
            \<and> (entries (snd (importData JSON_parse eng jsonString d)) = entries d
               \<or> entries (snd (importData JSON_parse eng jsonString d)) = upsert_all pre (entries d))"
    by blast
next
  show "list_all has_key vs \<and> open_error eng = None \<and> write_fault eng = NoFault \<longrightarrow>
            importData JSON_parse eng jsonString d
              = (Resolved (), d\<lparr>entries := upsert_all vs (entries d)\<rparr>)"
  proof (intro impI, elim conjE)
    assume valid: "list_all has_key vs" and op: "open_error eng = None"
      and nf: "write_fault eng = NoFault"
    show "importData JSON_parse eng jsonString d
              = (Resolved (), d\<lparr>entries := upsert_all vs (entries d)\<rparr>)"
      using importData_all_valid [where JSON_parse = JSON_parse and jsonString = jsonString
          and v = "JArr vs" and vs = vs and eng = eng and d = d] assms valid op nf
      by (simp add: run_transaction_NoFault apply_requests_of)
  qed
qed

theorem importData_missing_id_witness:
  \<open>json_parse ''[{"date":2},{"id":"c","date":3}]''
     = Some (JArr ([] @ JObj [(''date'', JNum 2)] # [JObj [(''id'', JStr ''c''), (''date'', JNum 3)]]))
   \<and> list_all has_key [] \<and> \<not> has_key (JObj [(''date'', JNum 2)])
   \<and> fst (importData json_parse healthy ''[{"date":2},{"id":"c","date":3}]'' three_days)
       = Rejected InvalidFormat
   \<and> get_record (entries (snd (importData json_parse healthy
          ''[{"date":2},{"id":"c","date":3}]'' three_days))) (KStr ''c'')
       = Some (entry_to_js (sample_entry ''c'' 200 ''Day 3''))
   \<and> json_parse ''[{"id":"a"},{"id":"b","date":2}]''
       = Some (JArr [JObj [(''id'', JStr ''a'')], JObj [(''id'', JStr ''b''), (''date'', JNum 2)]])
   \<and> list_all has_key [JObj [(''id'', JStr ''a'')], JObj [(''id'', JStr ''b''), (''date'', JNum 2)]]
   \<and> open_error healthy = None \<and> write_fault healthy = NoFault
   \<and> importData json_parse healthy ''[{"id":"a"},{"id":"b","date":2}]'' fresh_db
       = (Resolved (),
          \<lparr>entries = [(KStr ''a'', JObj [(''id'', JStr ''a'')]),
                      (KStr ''b'', JObj [(''id'', JStr ''b''), (''date'', JNum 2)])],
           settings = []\<rparr>)\<close>
proof -
  have p1: \<open>json_parse ''[{"date":2},{"id":"c","date":3}]''
     = Some (JArr ([] @ JObj [(''date'', JNum 2)] # [JObj [(''id'', JStr ''c''), (''date'', JNum 3)]]))\<close>
    by code_simp
  have v1: \<open>list_all has_key []\<close>
    by simp
  have b1: \<open>\<not> has_key (JObj [(''date'', JNum 2)])\<close>
    by (simp add: has_key_def extract_key_def)
  have s: \<open>get_record (entries three_days) (KStr ''c'') = Some (entry_to_js (sample_entry ''c'' 200 ''Day 3''))\<close>
    by code_simp
  have u: \<open>upsert_all [] (entries three_days) = entries three_days\<close>
    by simp
  from importData_missing_id [where JSON_parse = json_parse
      and jsonString = \<open>''[{"date":2},{"id":"c","date":3}]''\<close>
      and eng = healthy and d = three_days, OF p1, THEN conjunct1, rule_format,
      of \<open>[]\<close> \<open>JObj [(''date'', JNum 2)]\<close> \<open>[JObj [(''id'', JStr ''c''), (''date'', JNum 3)]]\<close>] v1 b1
  have r1: \<open>fst (importData json_parse healthy ''[{"date":2},{"id":"c","date":3}]'' three_days)
              = Rejected InvalidFormat
            \<and> entries (snd (importData json_parse healthy
                  ''[{"date":2},{"id":"c","date":3}]'' three_days)) = entries three_days\<close>
    by (simp only: u simp_thms)
  have p2: \<open>json_parse ''[{"id":"a"},{"id":"b","date":2}]''
       = Some (JArr [JObj [(''id'', JStr ''a'')], JObj [(''id'', JStr ''b''), (''date'', JNum 2)]])\<close>
    by code_simp
  have v2: \<open>list_all has_key [JObj [(''id'', JStr ''a'')], JObj [(''id'', JStr ''b''), (''date'', JNum 2)]]\<close>
    by (simp add: has_key_def extract_key_def)
  have ok: \<open>open_error healthy = None\<close> \<open>write_fault healthy = NoFault\<close>
    by (simp_all add: healthy_def)
  have st: \<open>fresh_db\<lparr>entries := upsert_all
              [JObj [(''id'', JStr ''a'')], JObj [(''id'', JStr ''b''), (''date'', JNum 2)]]
              (entries fresh_db)\<rparr>
            = \<lparr>entries = [(KStr ''a'', JObj [(''id'', JStr ''a'')]),
                         (KStr ''b'', JObj [(''id'', JStr ''b''), (''date'', JNum 2)])],
               settings = []\<rparr>\<close>
    by code_simp
  from importData_missing_id [where JSON_parse = json_parse
      and jsonString = \<open>''[{"id":"a"},{"id":"b","date":2}]''\<close>
      and eng = healthy and d = fresh_db, OF p2, THEN conjunct2] v2 ok
  have r2: \<open>importData json_parse healthy ''[{"id":"a"},{"id":"b","date":2}]'' fresh_db
       = (Resolved (),
          \<lparr>entries = [(KStr ''a'', JObj [(''id'', JStr ''a'')]),
                      (KStr ''b'', JObj [(''id'', JStr ''b''), (''date'', JNum 2)])],
           settings = []\<rparr>)\<close>
    by (simp only: st simp_thms)
  from p1 v1 b1 r1 s p2 v2 ok r2 show ?thesis by simp
qed

text \<open>
  The loop does not abort the transaction when a \<open>put\<close> throws: the records queued
  before the one without a key are committed although the import fails.
\<close>

lemma importData_commits_records_before_the_bad_one:
  \<open>importData json_parse healthy ''[{"id":"a","date":1},{"date":2}]'' fresh_db
   = (Rejected InvalidFormat,
      \<lparr>entries = [(KStr ''a'', JObj [(''id'', JStr ''a''), (''date'', JNum 1)])],
       settings = []\<rparr>)\<close>
  by code_simp

text \<open>
  The empty string is a sequence without elements: the text \<open>""\<close> is imported, and
  nothing changes.
\<close>

lemma importData_empty_string_resolves:
  \<open>importData json_parse healthy ''""'' three_days = (Resolved (), three_days)\<close>
  by code_simp

text \<open>
  C4. The loop queues every \<open>put\<close> in the one transaction that \<open>importData\<close> creates,
  and the promise listens to that transaction. For every text that decodes to a
  sequence of records carrying a key under \<open>id\<close>, whatever the engine does (a failure to
  open, a request that fails midway, a commit that fails), either the import resolves
  and every record is in the store, or it does not resolve and the database is exactly
  as it was.
\<close>

theorem importData_all_or_nothing:
  assumes "JSON_parse jsonString = Some (JArr vs)" and "list_all has_key vs"
  shows "importData JSON_parse eng jsonString d
           = (Resolved (), d\<lparr>entries := upsert_all vs (entries d)\<rparr>)
       \<or> (fst (importData JSON_parse eng jsonString d) \<noteq> Resolved ()
          \<and> snd (importData JSON_parse eng jsonString d) = d)"
proof (cases "open_error eng")
  case (Some e)
  then show ?thesis by (simp add: importData_open_failure)
next
  case None
  let ?tx = "run_transaction (write_fault eng) (requests_of vs) (entries d)"
  have r: "importData JSON_parse eng jsonString d
           = (settle_transaction (fst ?tx), d\<lparr>entries := snd ?tx\<rparr>)"
    using importData_all_valid [where JSON_parse = JSON_parse and jsonString = jsonString
        and v = "JArr vs" and vs = vs and eng = eng and d = d] assms None
    by simp
  from run_transaction_atomic [of "write_fault eng" "requests_of vs" "entries d"]
  show ?thesis
  proof
    assume "fst ?tx = Complete \<and> snd ?tx = apply_requests (requests_of vs) (entries d)"
    then show ?thesis
      using r assms(2) by (simp add: apply_requests_of)
  next
    assume "fst ?tx \<noteq> Complete \<and> snd ?tx = entries d"
    then show ?thesis
      using r by (simp add: settle_transaction_Resolved)
  qed
qed

theorem importData_all_or_nothing_witness:
  \<open>json_parse ''[{"id":"a","date":1},{"id":"b","date":2}]''
     = Some (JArr [JObj [(''id'', JStr ''a''), (''date'', JNum 1)],
                   JObj [(''id'', JStr ''b''), (''date'', JNum 2)]])
   \<and> list_all has_key [JObj [(''id'', JStr ''a''), (''date'', JNum 1)],
                       JObj [(''id'', JStr ''b''), (''date'', JNum 2)]]
   \<and> importData json_parse (healthy\<lparr>write_fault := RequestError 1 (EngineError ''QuotaExceededError'') NoError\<rparr>)
         ''[{"id":"a","date":1},{"id":"b","date":2}]'' three_days
       = (Rejected NoError, three_days)
   \<and> importData json_parse healthy ''[{"id":"a","date":1},{"id":"b","date":2}]'' fresh_db
       = (Resolved (),
          \<lparr>entries = [(KStr ''a'', JObj [(''id'', JStr ''a''), (''date'', JNum 1)]),
                      (KStr ''b'', JObj [(''id'', JStr ''b''), (''date'', JNum 2)])],
           settings = []\<rparr>)\<close>
proof -
  have p: \<open>json_parse ''[{"id":"a","date":1},{"id":"b","date":2}]''
     = Some (JArr [JObj [(''id'', JStr ''a''), (''date'', JNum 1)],
                   JObj [(''id'', JStr ''b''), (''date'', JNum 2)]])\<close>
    by code_simp
  have v: \<open>list_all has_key [JObj [(''id'', JStr ''a''), (''date'', JNum 1)],
                       JObj [(''id'', JStr ''b''), (''date'', JNum 2)]]\<close>
    by (simp add: has_key_def extract_key_def)
  have f1: \<open>fst (importData json_parse
                (healthy\<lparr>write_fault := RequestError 1 (EngineError ''QuotaExceededError'') NoError\<rparr>)
                ''[{"id":"a","date":1},{"id":"b","date":2}]'' three_days)
            = Rejected NoError\<close>
    by code_simp
  from importData_all_or_nothing [where JSON_parse = json_parse
      and jsonString = \<open>''[{"id":"a","date":1},{"id":"b","date":2}]''\<close>
      and eng = \<open>healthy\<lparr>write_fault := RequestError 1 (EngineError ''QuotaExceededError'') NoError\<rparr>\<close>
      and d = three_days, OF p v] f1
  have r1: \<open>importData json_parse
              (healthy\<lparr>write_fault := RequestError 1 (EngineError ''QuotaExceededError'') NoError\<rparr>)
              ''[{"id":"a","date":1},{"id":"b","date":2}]'' three_days
            = (Rejected NoError, three_days)\<close>
    by (auto simp: prod_eq_iff)
  have f2: \<open>fst (importData json_parse healthy ''[{"id":"a","date":1},{"id":"b","date":2}]'' fresh_db)
            = Resolved ()\<close>
    by code_simp
  have st: \<open>fresh_db\<lparr>entries := upsert_all
              [JObj [(''id'', JStr ''a''), (''date'', JNum 1)],
               JObj [(''id'', JStr ''b''), (''date'', JNum 2)]] (entries fresh_db)\<rparr>
            = \<lparr>entries = [(KStr ''a'', JObj [(''id'', JStr ''a''), (''date'', JNum 1)]),
                         (KStr ''b'', JObj [(''id'', JStr ''b''), (''date'', JNum 2)])],
               settings = []\<rparr>\<close>
    by code_simp
  from importData_all_or_nothing [where JSON_parse = json_parse
      and jsonString = \<open>''[{"id":"a","date":1},{"id":"b","date":2}]''\<close>
      and eng = healthy and d = fresh_db, OF p v] f2
  have r2: \<open>importData json_parse healthy ''[{"id":"a","date":1},{"id":"b","date":2}]'' fresh_db
       = (Resolved (),
          \<lparr>entries = [(KStr ''a'', JObj [(''id'', JStr ''a''), (''date'', JNum 1)]),
                      (KStr ''b'', JObj [(''id'', JStr ''b''), (''date'', JNum 2)])],
           settings = []\<rparr>)\<close>
    by (simp only: st simp_thms)
  from p v r1 r2 show ?thesis by blast
qed

text \<open>
  C9. After an import that resolved, the record under a key is the last record of the
  imported sequence that carries this key, if there is one, and otherwise the record
  that the store held under the key before the import, if any: imported records
  replace the records of their ids, and nothing else in the store changes or
  disappears. The settings store is as it was.
\<close>

theorem importData_overwrites_and_keeps:
  assumes "importData JSON_parse eng jsonString d = (Resolved (), d')"
    and "JSON_parse jsonString = Some v" and "iterate v = Some vs"
  shows "get_record (entries d') k =
           (case filter (\<lambda>x. extract_key ''id'' x = Some k) vs of
              [] \<Rightarrow> get_record (entries d) k
            | m # ms \<Rightarrow> Some (last (m # ms)))
       \<and> settings d' = settings d"
  using importData_resolved [OF assms] by (simp add: get_record_upsert_all)

theorem importData_overwrites_and_keeps_witness:
  \<open>importData json_parse healthy ''[{"id":"a","date":5},{"id":"z","date":1}]'' three_days
     = (Resolved (),
        snd (importData json_parse healthy ''[{"id":"a","date":5},{"id":"z","date":1}]'' three_days))
   \<and> json_parse ''[{"id":"a","date":5},{"id":"z","date":1}]''
       = Some (JArr [JObj [(''id'', JStr ''a''), (''date'', JNum 5)],
                     JObj [(''id'', JStr ''z''), (''date'', JNum 1)]])
   \<and> iterate (JArr [JObj [(''id'', JStr ''a''), (''date'', JNum 5)],
                     JObj [(''id'', JStr ''z''), (''date'', JNum 1)]])
       = Some [JObj [(''id'', JStr ''a''), (''date'', JNum 5)],
               JObj [(''id'', JStr ''z''), (''date'', JNum 1)]]
   \<and> get_record (entries (snd (importData json_parse healthy
          ''[{"id":"a","date":5},{"id":"z","date":1}]'' three_days))) (KStr ''a'')
       = Some (JObj [(''id'', JStr ''a''), (''date'', JNum 5)])
   \<and> get_record (entries (snd (importData json_parse healthy
          ''[{"id":"a","date":5},{"id":"z","date":1}]'' three_days))) (KStr ''b'')
       = Some (entry_to_js (sample_entry ''b'' 300 ''Day 2''))\<close>
proof -
  have f: \<open>fst (importData json_parse healthy ''[{"id":"a","date":5},{"id":"z","date":1}]'' three_days)
           = Resolved ()\<close>
    by code_simp
  then have h: \<open>importData json_parse healthy ''[{"id":"a","date":5},{"id":"z","date":1}]'' three_days
     = (Resolved (),
        snd (importData json_parse healthy ''[{"id":"a","date":5},{"id":"z","date":1}]'' three_days))\<close>
    by (simp add: prod_eq_iff)
  have p: \<open>json_parse ''[{"id":"a","date":5},{"id":"z","date":1}]''
       = Some (JArr [JObj [(''id'', JStr ''a''), (''date'', JNum 5)],
                     JObj [(''id'', JStr ''z''), (''date'', JNum 1)]])\<close>
    by code_simp
  have i: \<open>iterate (JArr [JObj [(''id'', JStr ''a''), (''date'', JNum 5)],
                     JObj [(''id'', JStr ''z''), (''date'', JNum 1)]])
       = Some [JObj [(''id'', JStr ''a''), (''date'', JNum 5)],
               JObj [(''id'', JStr ''z''), (''date'', JNum 1)]]\<close>
    by simp
  have b: \<open>get_record (entries three_days) (KStr ''b'') = Some (entry_to_js (sample_entry ''b'' 300 ''Day 2''))\<close>
    by code_simp
  note inst = importData_overwrites_and_keeps [where JSON_parse = json_parse
      and jsonString = \<open>''[{"id":"a","date":5},{"id":"z","date":1}]''\<close>
      and eng = healthy and d = three_days, OF h p i]
  from inst [of \<open>KStr ''a''\<close>]
  have ra: \<open>get_record (entries (snd (importData json_parse healthy
          ''[{"id":"a","date":5},{"id":"z","date":1}]'' three_days))) (KStr ''a'')
       = Some (JObj [(''id'', JStr ''a''), (''date'', JNum 5)])\<close>
    by (simp add: extract_key_def)
  from inst [of \<open>KStr ''b''\<close>] b
  have rb: \<open>get_record (entries (snd (importData json_parse healthy
          ''[{"id":"a","date":5},{"id":"z","date":1}]'' three_days))) (KStr ''b'')
       = Some (entry_to_js (sample_entry ''b'' 300 ''Day 2''))\<close>
    by (simp add: extract_key_def)
  from h p i ra rb show ?thesis by blast
qed

text \<open>
  C5. Take any entry store that satisfies the invariant and whose objects have distinct
  member names (every store that \<open>saveEntry\<close> builds is one), and an engine without
  faults. Then \<open>exportData\<close> resolves with a text, \<open>importData\<close> of that text into the
  fresh database resolves, and the listing of the database so obtained has the same
  records as the listing before the export, each once: the same ids with the same value
  of every field. The store need not be non-empty. The codec is the reference codec;
  the same holds for any codec that decodes the encoding of the listing to the listing.
\<close>

theorem export_import_round_trip:
  assumes "wf_store ''id'' (entries d)"
    and "list_all distinct_names (getAll (entries d))"
  shows "\<exists>jsonString before d2 after.
           getAllEntries healthy d = (Resolved before, d)
         \<and> exportData json_stringify healthy d = (Resolved jsonString, d)
         \<and> importData json_parse healthy jsonString fresh_db = (Resolved (), d2)
         \<and> getAllEntries healthy d2 = (Resolved after, d2)
         \<and> mset after = mset before"
proof -
  let ?before = "js_sort by_date_desc (getAll (entries d))"
  have li: "getAllEntries healthy d = (Resolved ?before, d)"
    by (simp add: getAllEntries_def openDB_def healthy_def)
  have "distinct_names (JArr ?before)"
    using assms(2) by (simp add: list_all_iff set_js_sort)
  then have codec: "json_parse (json_stringify (JArr ?before)) = Some (JArr ?before)"
    by (rule json_round_trip)
  from round_trip_for_codec [OF assms(1) li,
      where JSON_parse = json_parse and JSON_stringify = json_stringify, OF codec] li
  show ?thesis by blast
qed

theorem export_import_round_trip_witness:
  "wf_store ''id'' (entries three_days)
   \<and> list_all distinct_names (getAll (entries three_days))
   \<and> entries three_days \<noteq> []
   \<and> getAllEntries healthy three_days
       = (Resolved (map entry_to_js [sample_entry ''b'' 300 ''Day 2'', sample_entry ''c'' 200 ''Day 3'',
                                     sample_entry ''a'' 100 ''Day 1'']), three_days)
   \<and> (\<exists>jsonString d2 after.
           exportData json_stringify healthy three_days = (Resolved jsonString, three_days)
         \<and> importData json_parse healthy jsonString fresh_db = (Resolved (), d2)
         \<and> getAllEntries healthy d2 = (Resolved after, d2)
         \<and> mset after = mset (map entry_to_js
                  [sample_entry ''b'' 300 ''Day 2'', sample_entry ''c'' 200 ''Day 3'',
                   sample_entry ''a'' 100 ''Day 1'']))"
proof -
  have wf: "wf_store ''id'' (entries three_days)"
    and dn: "list_all distinct_names (getAll (entries three_days))"
    unfolding three_days_def using saved_entries_invariants by blast+
  have ne: "entries three_days \<noteq> []"
    by code_simp
  have f: "fst (getAllEntries healthy three_days)
       = Resolved (map entry_to_js [sample_entry ''b'' 300 ''Day 2'', sample_entry ''c'' 200 ''Day 3'',
                                     sample_entry ''a'' 100 ''Day 1''])"
    by code_simp
  have "snd (getAllEntries healthy three_days) = three_days"
    by (simp add: getAllEntries_def openDB_def healthy_def)
  with f have li: "getAllEntries healthy three_days
       = (Resolved (map entry_to_js [sample_entry ''b'' 300 ''Day 2'', sample_entry ''c'' 200 ''Day 3'',
                                     sample_entry ''a'' 100 ''Day 1'']), three_days)"
    by (simp add: prod_eq_iff)
  from export_import_round_trip [OF wf dn] li
  have "\<exists>jsonString d2 after.
           exportData json_stringify healthy three_days = (Resolved jsonString, three_days)
         \<and> importData json_parse healthy jsonString fresh_db = (Resolved (), d2)
         \<and> getAllEntries healthy d2 = (Resolved after, d2)
         \<and> mset after = mset (map entry_to_js
                  [sample_entry ''b'' 300 ''Day 2'', sample_entry ''c'' 200 ''Day 3'',
                   sample_entry ''a'' 100 ''Day 1''])"
    by auto
  with wf dn ne li show ?thesis by blast
qed

end
